theory Spec2Isabelle
  imports Main "HOL-Library.Sublist" "HOL-Library.List_Lexorder"
begin

section \<open>Text\<close>

text \<open>
  A Python \<^verbatim>\<open>str\<close> is a sequence of Unicode code points: a character is its code
  point (\<^verbatim>\<open>ord\<close>, a Python integer), a string the list of them. \<open>u\<close> writes an ASCII literal of
  the source; the two accented literals of \<^verbatim>\<open>nlu.py\<close> (precomposed U+00F1 and
  U+00F3 in its UTF-8 text) are written with their code points.
\<close>

type_synonym uchar = int
type_synonym ustr = "int list"

definition u :: "string \<Rightarrow> ustr" where
  "u s = map of_char s"

text \<open>
  What \<^verbatim>\<open>nlu.py\<close> takes from Python's Unicode database and string library is a
  parameter of the model: \<^verbatim>\<open>str.lower\<close>, \<^verbatim>\<open>unicodedata.normalize("NFD", _)\<close>,
  the test \<^verbatim>\<open>unicodedata.category(ch) == "Mn"\<close>, the white space of
  \<^verbatim>\<open>str.strip\<close> and of the pattern \<^verbatim>\<open>\s\<close> (both are \<^verbatim>\<open>str.isspace\<close> in CPython),
  the alphanumerics behind \<^verbatim>\<open>\w\<close> and \<^verbatim>\<open>\b\<close>, and the decimal digits matched by
  \<^verbatim>\<open>\d\<close> and read by \<^verbatim>\<open>int\<close>, with their values.
\<close>

record unicode =
  str_lower :: "ustr \<Rightarrow> ustr"
  nfd :: "ustr \<Rightarrow> ustr"
  cat_Mn :: "uchar \<Rightarrow> bool"
  isspace :: "uchar \<Rightarrow> bool"
  isalnum :: "uchar \<Rightarrow> bool"
  decimal :: "uchar \<Rightarrow> int option"

definition isword :: "unicode \<Rightarrow> uchar \<Rightarrow> bool" where
  "isword U c = (isalnum U c \<or> c = 95)"

definition isdigit :: "unicode \<Rightarrow> uchar \<Rightarrow> bool" where
  "isdigit U c = (case decimal U c of None \<Rightarrow> False | Some v \<Rightarrow> True)"

text \<open>\<^verbatim>\<open>s.strip()\<close>: leading and trailing white space removed.\<close>

definition strip :: "unicode \<Rightarrow> ustr \<Rightarrow> ustr" where
  "strip U s = rev (dropWhile (isspace U) (rev (dropWhile (isspace U) s)))"

text \<open>\<^verbatim>\<open>w in t\<close> on strings: \<open>w\<close> occurs in \<open>t\<close> as a contiguous substring.\<close>

definition str_in :: "ustr \<Rightarrow> ustr \<Rightarrow> bool" where
  "str_in w t = sublist w t"

section \<open>Regular expressions\<close>

text \<open>
  The patterns of \<^verbatim>\<open>nlu.py\<close> use literals, the classes \<^verbatim>\<open>\s\<close>, \<^verbatim>\<open>\d\<close>, \<^verbatim>\<open>.\<close> and
  sets such as \<^verbatim>\<open>[ao]\<close>, the word boundary \<^verbatim>\<open>\b\<close>, concatenation, alternation,
  the greedy \<^verbatim>\<open>*\<close>, \<^verbatim>\<open>+\<close>, \<^verbatim>\<open>?\<close> and \<^verbatim>\<open>{n}\<close>, and groups. \<open>Grp n r\<close> is the
  capturing group number \<open>n\<close>; a group \<^verbatim>\<open>(?:...)\<close> is its body.
\<close>

datatype rx =
    Lit uchar
  | OneOf "uchar list"
  | Space
  | Digit
  | Dot
  | Bnd
  | Eps
  | Seq rx rx
  | Alt rx rx
  | Star rx
  | Grp nat rx

definition word :: "string \<Rightarrow> rx" where
  "word s = foldr (\<lambda>c r. Seq (Lit (of_char c)) r) s Eps"

definition opt :: "rx \<Rightarrow> rx" where
  "opt r = Alt r Eps"

definition plus :: "rx \<Rightarrow> rx" where
  "plus r = Seq r (Star r)"

fun rep :: "nat \<Rightarrow> rx \<Rightarrow> rx" where
  "rep 0 r = Eps"
| "rep (Suc n) r = Seq r (rep n r)"

fun seqs :: "rx list \<Rightarrow> rx" where
  "seqs [] = Eps"
| "seqs [r] = r"
| "seqs (r # rs) = Seq r (seqs rs)"

fun alts :: "rx list \<Rightarrow> rx" where
  "alts [] = Eps"
| "alts [r] = r"
| "alts (r # rs) = Alt r (alts rs)"

text \<open>
  A backtracking matcher in the order of Python's: the state is what \<^verbatim>\<open>\b\<close> needs of
  the text already read (was the previous character a word character; at the start
  of the text there is none), the text still to read, and the groups captured so far
  (the latest first). \<open>ms U r st\<close> lists the states in which a match of \<open>r\<close> from \<open>st\<close>
  can end, in the order in which the backtracking engine tries them: the first
  alternative first, the longest repetition first. Its head is the match found.
\<close>

type_synonym mstate = "bool \<times> ustr \<times> (nat \<times> ustr) list"

definition rest :: "mstate \<Rightarrow> ustr" where
  "rest st = fst (snd st)"

definition step :: "unicode \<Rightarrow> (uchar \<Rightarrow> bool) \<Rightarrow> mstate \<Rightarrow> mstate list" where
  "step U p st =
     (case st of (w, s, g) \<Rightarrow>
        (case s of [] \<Rightarrow> [] | x # xs \<Rightarrow> if p x then [(isword U x, xs, g)] else []))"

definition at_boundary :: "unicode \<Rightarrow> mstate \<Rightarrow> bool" where
  "at_boundary U st =
     (case st of (w, s, g) \<Rightarrow> w \<noteq> (case s of [] \<Rightarrow> False | x # xs \<Rightarrow> isword U x))"

fun star :: "nat \<Rightarrow> (mstate \<Rightarrow> mstate list) \<Rightarrow> mstate \<Rightarrow> mstate list" where
  "star 0 f st = [st]"
| "star (Suc k) f st =
     concat (map (\<lambda>st'. if length (rest st') < length (rest st) then star k f st' else [])
                 (f st)) @ [st]"

definition capture :: "nat \<Rightarrow> ustr \<Rightarrow> mstate \<Rightarrow> mstate" where
  "capture n s st =
     (case st of (w', s', g') \<Rightarrow> (w', s', (n, take (length s - length s') s) # g'))"

primrec ms :: "unicode \<Rightarrow> rx \<Rightarrow> mstate \<Rightarrow> mstate list" where
  "ms U (Lit c) st = step U (\<lambda>x. x = c) st"
| "ms U (OneOf cs) st = step U (\<lambda>x. x \<in> set cs) st"
| "ms U Space st = step U (isspace U) st"
| "ms U Digit st = step U (isdigit U) st"
| "ms U Dot st = step U (\<lambda>x. x \<noteq> 10) st"
| "ms U Bnd st = (if at_boundary U st then [st] else [])"
| "ms U Eps st = [st]"
| "ms U (Seq a b) st = concat (map (ms U b) (ms U a st))"
| "ms U (Alt a b) st = ms U a st @ ms U b st"
| "ms U (Star a) st = star (length (rest st)) (ms U a) st"
| "ms U (Grp n a) st = map (capture n (rest st)) (ms U a st)"

text \<open>
  \<^verbatim>\<open>re.search(r, t)\<close>: the match at the leftmost position that has one; \<open>None\<close> when
  no position has. \<open>group\<close> is \<^verbatim>\<open>m.group(n)\<close>, \<open>None\<close> for a group that took no part.
\<close>

fun search_from :: "unicode \<Rightarrow> rx \<Rightarrow> bool \<Rightarrow> ustr \<Rightarrow> mstate option" where
  "search_from U r w [] = (case ms U r (w, [], []) of [] \<Rightarrow> None | m # _ \<Rightarrow> Some m)"
| "search_from U r w (x # xs) =
     (case ms U r (w, x # xs, []) of
        [] \<Rightarrow> search_from U r (isword U x) xs
      | m # _ \<Rightarrow> Some m)"

definition re_search :: "unicode \<Rightarrow> rx \<Rightarrow> ustr \<Rightarrow> mstate option" where
  "re_search U r t = search_from U r False t"

definition found :: "unicode \<Rightarrow> rx \<Rightarrow> ustr \<Rightarrow> bool" where
  "found U r t = (case re_search U r t of None \<Rightarrow> False | Some m \<Rightarrow> True)"

definition group :: "mstate \<Rightarrow> nat \<Rightarrow> ustr option" where
  "group m n = map_of (snd (snd m)) n"

text \<open>
  \<^verbatim>\<open>re.sub(r, repl, t)\<close> for a replacement without group references: the leftmost
  matches, one after the other, replaced; an empty match is replaced and the scan
  moves on by one character.
\<close>

function sub_from :: "unicode \<Rightarrow> rx \<Rightarrow> ustr \<Rightarrow> bool \<Rightarrow> ustr \<Rightarrow> ustr" where
  "sub_from U r repl w s =
     (case ms U r (w, s, []) of
        [] \<Rightarrow> (case s of [] \<Rightarrow> [] | x # xs \<Rightarrow> x # sub_from U r repl (isword U x) xs)
      | m # _ \<Rightarrow>
          if length (rest m) < length s then repl @ sub_from U r repl (fst m) (rest m)
          else (case s of [] \<Rightarrow> repl
                | x # xs \<Rightarrow> repl @ x # sub_from U r repl (isword U x) xs))"
  by pat_completeness auto
termination
  by (relation "measure (\<lambda>(U, r, repl, w, s). length s)") auto

definition re_sub :: "unicode \<Rightarrow> rx \<Rightarrow> ustr \<Rightarrow> ustr \<Rightarrow> ustr" where
  "re_sub U r repl t = sub_from U r repl False t"

section \<open>Normalisation\<close>

text \<open>
  \<^verbatim>\<open>_norm\<close>: lower-case and trim; decompose (NFD) and drop the characters of
  category Mn; replace every run of white space by one space.
\<close>

definition drop_marks :: "unicode \<Rightarrow> ustr \<Rightarrow> ustr" where
  "drop_marks U s = filter (\<lambda>ch. \<not> cat_Mn U ch) (nfd U s)"

definition norm :: "unicode \<Rightarrow> ustr \<Rightarrow> ustr" where
  "norm U s0 =
     (let s = strip U (str_lower U s0);
          s = drop_marks U s;
          s = re_sub U (plus Space) (u '' '') s
      in s)"

section \<open>Greetings and farewells\<close>

definition GREETINGS :: "ustr list" where
  "GREETINGS =
     [u ''hola'', u ''buenas'', u ''buenos dias'', u ''buen dia'', u ''buenas tardes'',
      u ''buenas noches'', u ''que puedes hacer'', u ''ayuda'', u ''help'', u ''/start'',
      u ''/help'']"

definition FAREWELLS :: "ustr list" where
  "FAREWELLS =
     [u ''gracias'', u ''nos vemos'', u ''bye'', u ''adios'', u ''hasta luego'',
      u ''hasta pronto'', u ''hasta manana'', u ''hasta ma'' @ [0xF1] @ u ''ana'',
      u ''chao'', u ''me despido'']"

definition is_greeting :: "unicode \<Rightarrow> ustr \<Rightarrow> bool" where
  "is_greeting U text = (let t = norm U text in list_ex (\<lambda>w. str_in w t) GREETINGS)"

definition is_farewell :: "unicode \<Rightarrow> ustr \<Rightarrow> bool" where
  "is_farewell U text = (let t = norm U text in list_ex (\<lambda>w. str_in w t) FAREWELLS)"

section \<open>Months, technicians, intents\<close>

text \<open>\<^verbatim>\<open>MONTHS\<close>: a dict, iterated in the order its literal is written.\<close>

definition MONTHS :: "(string \<times> int) list" where
  "MONTHS =
     [(''enero'', 1), (''febrero'', 2), (''marzo'', 3), (''abril'', 4), (''mayo'', 5),
      (''junio'', 6), (''julio'', 7), (''agosto'', 8), (''septiembre'', 9),
      (''setiembre'', 9), (''octubre'', 10), (''noviembre'', 11), (''diciembre'', 12)]"

definition TECHS :: "string list" where
  "TECHS = [''andres'', ''esteban'', ''juan'', ''sebastian'', ''mateo'', ''jose'', ''pablo'']"

datatype intent =
  HELP | MTTR | MTBF | PM_COMPLIANCE | BACKLOG | COSTS | TOP_DOWNTIME | STATUS_COUNTS
  | TECH_BY_PERSON

text \<open>\<^verbatim>\<open>(?:dime|muestr(?:a|ame)|podrias|puedes|por favor|como esta|cual es|indica|reporta|quiero saber|me dices)\<close>\<close>

definition FILLER :: rx where
  "FILLER =
     alts [word ''dime'', Seq (word ''muestr'') (Alt (word ''a'') (word ''ame'')),
           word ''podrias'', word ''puedes'', word ''por favor'', word ''como esta'',
           word ''cual es'', word ''indica'', word ''reporta'', word ''quiero saber'',
           word ''me dices'']"

text \<open>
  \<^verbatim>\<open>(ordenes|\<acute>ordenes|ots)\<close> as group \<open>n\<close> (here \<^verbatim>\<open>\<acute>o\<close> stands for the one
  character U+00F3), and \<^verbatim>\<open>(cuant[ao]s?)\<close> as group 1.
\<close>

definition orders_grp :: "nat \<Rightarrow> rx" where
  "orders_grp n =
     Grp n (alts [word ''ordenes'', Seq (Lit 0xF3) (word ''rdenes''), word ''ots''])"

definition cuantos_grp :: rx where
  "cuantos_grp = Grp 1 (seqs [word ''cuant'', OneOf (u ''ao''), opt (Lit (of_char CHR ''s''))])"

definition optional_s :: rx where
  "optional_s = opt (Lit (of_char CHR ''s''))"

text \<open>
  \<^verbatim>\<open>INTENTS\<close>: pattern and label, in the order of the dict literal.
  \<^item> \<^verbatim>\<open>\b(mttr|tiempo medio de reparacion)\b\<close>
  \<^item> \<^verbatim>\<open>\b(mtbf|tiempo medio entre fallas)\b\<close>
  \<^item> \<^verbatim>\<open>\b(cumplimiento\s*pm|pm compliance|preventiv[oa]s?\s*cumplimiento|cumplimiento\s*de\s*pm)\b\<close>
  \<^item> \<^verbatim>\<open>\b(backlog|atraso)\b\<close>
  \<^item> \<^verbatim>\<open>\b(costos?|gastos?)\b\<close>
  \<^item> \<^verbatim>\<open>\b(paradas|downtime|tiempo muerto|top downtime)\b\<close>
  \<^item> \<^verbatim>\<open>\b(estados?|estado|conteos?)\b\<close>
  \<^item> \<^verbatim>\<open>\b(cuant[ao]s?)\b.*\b(ordenes|\<acute>ordenes|ots)\b.*\b(tiene)\b\<close>
  \<^item> \<^verbatim>\<open>\b(cuant[ao]s?)\b.*\b(ordenes|\<acute>ordenes|ots)\b.*\b(abiert[as]?|cerrad[as]?|progreso|en progreso|totales?)\b.*\b(hay)\b\<close>
\<close>

definition INTENTS :: "(rx \<times> intent) list" where
  "INTENTS =
     [(seqs [Bnd, Grp 1 (alts [word ''mttr'', word ''tiempo medio de reparacion'']), Bnd],
       MTTR),
      (seqs [Bnd, Grp 1 (alts [word ''mtbf'', word ''tiempo medio entre fallas'']), Bnd],
       MTBF),
      (seqs [Bnd,
             Grp 1 (alts [seqs [word ''cumplimiento'', Star Space, word ''pm''],
                          word ''pm compliance'',
                          seqs [word ''preventiv'', OneOf (u ''oa''), optional_s, Star Space,
                                word ''cumplimiento''],
                          seqs [word ''cumplimiento'', Star Space, word ''de'', Star Space,
                                word ''pm'']]),
             Bnd],
       PM_COMPLIANCE),
      (seqs [Bnd, Grp 1 (alts [word ''backlog'', word ''atraso'']), Bnd], BACKLOG),
      (seqs [Bnd, Grp 1 (alts [Seq (word ''costo'') optional_s, Seq (word ''gasto'') optional_s]),
             Bnd],
       COSTS),
      (seqs [Bnd,
             Grp 1 (alts [word ''paradas'', word ''downtime'', word ''tiempo muerto'',
                          word ''top downtime'']),
             Bnd],
       TOP_DOWNTIME),
      (seqs [Bnd,
             Grp 1 (alts [Seq (word ''estado'') optional_s, word ''estado'',
                          Seq (word ''conteo'') optional_s]),
             Bnd],
       STATUS_COUNTS),
      (seqs [Bnd, cuantos_grp, Bnd, Star Dot, Bnd, orders_grp 2, Bnd, Star Dot, Bnd,
             Grp 3 (word ''tiene''), Bnd],
       TECH_BY_PERSON),
      (seqs [Bnd, cuantos_grp, Bnd, Star Dot, Bnd, orders_grp 2, Bnd, Star Dot, Bnd,
             Grp 3 (alts [Seq (word ''abiert'') (opt (OneOf (u ''as''))),
                          Seq (word ''cerrad'') (opt (OneOf (u ''as''))),
                          word ''progreso'', word ''en progreso'',
                          Seq (word ''totale'') optional_s]),
             Bnd, Star Dot, Bnd, Grp 4 (word ''hay''), Bnd],
       STATUS_COUNTS)]"

text \<open>The loop over \<^verbatim>\<open>INTENTS.items()\<close>: the label of the first pattern found.\<close>

fun first_intent :: "unicode \<Rightarrow> (rx \<times> intent) list \<Rightarrow> ustr \<Rightarrow> intent option" where
  "first_intent U [] t2 = None"
| "first_intent U ((pat, name) # ps) t2 =
     (if found U pat t2 then Some name else first_intent U ps t2)"

definition has_orders :: "unicode \<Rightarrow> ustr \<Rightarrow> bool" where
  "has_orders U t = found U (seqs [Bnd, orders_grp 1, Bnd]) t"

definition mentions_tech :: "ustr \<Rightarrow> bool" where
  "mentions_tech t = list_ex (\<lambda>tech. str_in (u tech) t) TECHS"

text \<open>\<^verbatim>\<open>detect_intent\<close> after its first line, on the normalised text \<open>t\<close>.\<close>

definition intent_of :: "unicode \<Rightarrow> ustr \<Rightarrow> intent" where
  "intent_of U t =
     (if list_ex (\<lambda>g. str_in g t) GREETINGS then HELP
      else if has_orders U t \<and> \<not> mentions_tech t then STATUS_COUNTS
      else (let t2 = re_sub U FILLER [] t in
            case first_intent U INTENTS t2 of
              Some name \<Rightarrow> name
            | None \<Rightarrow>
                if mentions_tech t \<and>
                   (str_in (u ''abiert'') t \<or> str_in (u ''cerrad'') t \<or> str_in (u ''progreso'') t)
                then TECH_BY_PERSON
                else HELP))"

definition detect_intent :: "unicode \<Rightarrow> ustr \<Rightarrow> intent" where
  "detect_intent U text = intent_of U (norm U text)"

section \<open>Dates\<close>

text \<open>
  The exceptions the date code can raise: \<^verbatim>\<open>ValueError\<close> from \<^verbatim>\<open>date(y, m, d)\<close> and
  from \<^verbatim>\<open>int\<close>, \<^verbatim>\<open>OverflowError\<close> from \<^verbatim>\<open>timedelta(days=n)\<close> and from a subtraction
  that leaves the years 1 to 9999, \<^verbatim>\<open>TypeError\<close> from \<^verbatim>\<open>int(None)\<close>.
\<close>

datatype error = ValueError | OverflowError | TypeError

text \<open>
  \<^verbatim>\<open>datetime.date\<close>, in the proleptic Gregorian calendar. The code reads the clock
  (\<^verbatim>\<open>datetime.utcnow()\<close>) and uses only its date: the model takes it as the argument
  \<open>now\<close>, a valid date.
\<close>

record date =
  year :: int
  month :: int
  day :: int

definition is_leap :: "int \<Rightarrow> bool" where
  "is_leap y = (y mod 4 = 0 \<and> (y mod 400 = 0 \<or> y mod 100 \<noteq> 0))"

definition days_in_month :: "int \<Rightarrow> int \<Rightarrow> int" where
  "days_in_month y m =
     (if m = 2 then (if is_leap y then 29 else 28)
      else if m = 4 \<or> m = 6 \<or> m = 9 \<or> m = 11 then 30 else 31)"

definition valid_date :: "date \<Rightarrow> bool" where
  "valid_date d =
     (1 \<le> year d \<and> year d \<le> 9999 \<and> 1 \<le> month d \<and> month d \<le> 12 \<and>
      1 \<le> day d \<and> day d \<le> days_in_month (year d) (month d))"

text \<open>\<^verbatim>\<open>date(y, m, d)\<close>\<close>

definition mk_date :: "int \<Rightarrow> int \<Rightarrow> int \<Rightarrow> error + date" where
  "mk_date y m d =
     (if valid_date \<lparr>year = y, month = m, day = d\<rparr>
      then Inr \<lparr>year = y, month = m, day = d\<rparr> else Inl ValueError)"

text \<open>
  \<^verbatim>\<open>d - timedelta(days=n)\<close> for \<open>n \<ge> 0\<close>: \<open>n\<close> times the day before; there is no
  day before 0001-01-01, and no \<^verbatim>\<open>timedelta\<close> of more than 999999999 days.
\<close>

definition prev_day :: "date \<Rightarrow> date option" where
  "prev_day d =
     (if 1 < day d then Some (d\<lparr>day := day d - 1\<rparr>)
      else if 1 < month d
        then Some (d\<lparr>month := month d - 1, day := days_in_month (year d) (month d - 1)\<rparr>)
      else if 1 < year d then Some \<lparr>year = year d - 1, month = 12, day = 31\<rparr>
      else None)"

function days_back :: "int \<Rightarrow> date \<Rightarrow> date option" where
  "days_back n d =
     (if n \<le> 0 then Some d
      else case prev_day d of None \<Rightarrow> None | Some p \<Rightarrow> days_back (n - 1) p)"
  by pat_completeness auto
termination
  by (relation "measure (\<lambda>(n, d). nat n)") auto

definition minus_days :: "date \<Rightarrow> int \<Rightarrow> error + date" where
  "minus_days d n =
     (if 999999999 < n then Inl OverflowError
      else case days_back n d of None \<Rightarrow> Inl OverflowError | Some r \<Rightarrow> Inr r)"

text \<open>\<^verbatim>\<open>d.weekday()\<close>: Monday is 0; \<^verbatim>\<open>(d.toordinal() + 6) % 7\<close>.\<close>

definition days_before_year :: "int \<Rightarrow> int" where
  "days_before_year y = (let p = y - 1 in p * 365 + p div 4 - p div 100 + p div 400)"

definition days_before_month :: "int \<Rightarrow> int \<Rightarrow> int" where
  "days_before_month y m = sum_list (map (days_in_month y) [1..m - 1])"

definition toordinal :: "date \<Rightarrow> int" where
  "toordinal d = days_before_year (year d) + days_before_month (year d) (month d) + day d"

definition weekday :: "date \<Rightarrow> int" where
  "weekday d = (toordinal d + 6) mod 7"

text \<open>
  \<^verbatim>\<open>d.isoformat()\<close>, that is \<^verbatim>\<open>"%04d-%02d-%02d"\<close>: \<open>zpad w n\<close> is \<open>n\<close> in \<open>w\<close> decimal
  digits with leading zeros (all of \<open>n\<close> when \<open>0 \<le> n < 10 ^ w\<close>, as the fields of a date
  are).
\<close>

fun zpad :: "nat \<Rightarrow> int \<Rightarrow> ustr" where
  "zpad 0 n = []"
| "zpad (Suc w) n = zpad w (n div 10) @ [0x30 + n mod 10]"

definition isoformat :: "date \<Rightarrow> ustr" where
  "isoformat d = zpad 4 (year d) @ [0x2D] @ zpad 2 (month d) @ [0x2D] @ zpad 2 (day d)"

text \<open>
  \<^verbatim>\<open>int(s)\<close> on a string of decimal digits (what the groups \<^verbatim>\<open>(\d{4})\<close> and \<^verbatim>\<open>(\d+)\<close>
  hold). CPython refuses more than 4300 digits with a \<^verbatim>\<open>ValueError\<close>.
\<close>

fun digits_value :: "unicode \<Rightarrow> int \<Rightarrow> ustr \<Rightarrow> int option" where
  "digits_value U a [] = Some a"
| "digits_value U a (c # cs) =
     (case decimal U c of None \<Rightarrow> None | Some v \<Rightarrow> digits_value U (10 * a + v) cs)"

definition py_int :: "unicode \<Rightarrow> ustr \<Rightarrow> error + int" where
  "py_int U s =
     (if s = [] \<or> 4300 < int (length s) then Inl ValueError
      else case digits_value U 0 s of None \<Rightarrow> Inl ValueError | Some n \<Rightarrow> Inr n)"

text \<open>\<^verbatim>\<open>\b{name}\b(?:\s+(\d{4}))?\<close>\<close>

definition month_pattern :: "string \<Rightarrow> rx" where
  "month_pattern name =
     seqs [Bnd, word name, Bnd, opt (Seq (plus Space) (Grp 1 (rep 4 Digit)))]"

text \<open>
  \<^verbatim>\<open>_month_range_from_name\<close>: the loop over \<^verbatim>\<open>MONTHS.items()\<close>, which returns at the
  first month of the table whose name is found in \<open>t\<close>.
\<close>

definition month_range :: "int \<Rightarrow> int \<Rightarrow> error + (ustr \<times> ustr)" where
  "month_range y m =
     (case mk_date y m 1 of
        Inl e \<Rightarrow> Inl e
      | Inr start \<Rightarrow>
          (case (if m = 12 then mk_date (y + 1) 1 1 else mk_date y (m + 1) 1) of
             Inl e \<Rightarrow> Inl e
           | Inr next_first \<Rightarrow>
               (case minus_days next_first 1 of
                  Inl e \<Rightarrow> Inl e
                | Inr end \<Rightarrow> Inr (isoformat start, isoformat end))))"

fun month_loop ::
  "unicode \<Rightarrow> date \<Rightarrow> (string \<times> int) list \<Rightarrow> ustr \<Rightarrow> error + (ustr \<times> ustr) option" where
  "month_loop U now [] t = Inr None"
| "month_loop U now ((name, m) # months) t =
     (case re_search U (month_pattern name) t of
        None \<Rightarrow> month_loop U now months t
      | Some mobj \<Rightarrow>
          (case (case group mobj 1 of None \<Rightarrow> Inr (year now) | Some g \<Rightarrow> py_int U g) of
             Inl e \<Rightarrow> Inl e
           | Inr y \<Rightarrow> (case month_range y m of Inl e \<Rightarrow> Inl e | Inr r \<Rightarrow> Inr (Some r))))"

definition month_range_from_name ::
  "unicode \<Rightarrow> date \<Rightarrow> ustr \<Rightarrow> error + (ustr \<times> ustr) option" where
  "month_range_from_name U now t = month_loop U now MONTHS t"

text \<open>
  \<^item> \<^verbatim>\<open>\bultimos?\s+(\d+)\s+dias\b\<close>
  \<^item> \<^verbatim>\<open>\bdesde\s+(\d{4}-\d{2}-\d{2})\s+hasta\s+(\d{4}-\d{2}-\d{2})\b\<close>
\<close>

definition ultimos_pattern :: rx where
  "ultimos_pattern =
     seqs [Bnd, word ''ultimo'', optional_s, plus Space, Grp 1 (plus Digit), plus Space,
           word ''dias'', Bnd]"

definition iso_date_pattern :: rx where
  "iso_date_pattern = seqs [rep 4 Digit, Lit 0x2D, rep 2 Digit, Lit 0x2D, rep 2 Digit]"

definition desde_pattern :: rx where
  "desde_pattern =
     seqs [Bnd, word ''desde'', plus Space, Grp 1 iso_date_pattern, plus Space,
           word ''hasta'', plus Space, Grp 2 iso_date_pattern, Bnd]"

definition phrase :: "string \<Rightarrow> rx" where
  "phrase s = seqs [Bnd, word s, Bnd]"

text \<open>
  \<^verbatim>\<open>_apply_date_pattern\<close>: the values of \<^verbatim>\<open>date_from\<close> and \<^verbatim>\<open>date_to\<close> in the dict it
  returns.
\<close>

definition apply_date_pattern ::
  "unicode \<Rightarrow> date \<Rightarrow> ustr \<Rightarrow> error + (ustr option \<times> ustr option)" where
  "apply_date_pattern U now t =
     (case month_range_from_name U now t of
        Inl e \<Rightarrow> Inl e
      | Inr (Some (a, b)) \<Rightarrow> Inr (Some a, Some b)
      | Inr None \<Rightarrow>
          if found U (phrase ''este mes'') t
            then Inr (Some (isoformat (now\<lparr>day := 1\<rparr>)), Some (isoformat now))
          else if found U (phrase ''mes pasado'') t
            then (case minus_days (now\<lparr>day := 1\<rparr>) 1 of
                    Inl e \<Rightarrow> Inl e
                  | Inr last_prev \<Rightarrow>
                      Inr (Some (isoformat (last_prev\<lparr>day := 1\<rparr>)), Some (isoformat last_prev)))
          else if found U (phrase ''esta semana'') t
            then (case minus_days now (weekday now) of
                    Inl e \<Rightarrow> Inl e
                  | Inr start \<Rightarrow> Inr (Some (isoformat start), Some (isoformat now)))
          else if found U (phrase ''semana pasada'') t
            then (case minus_days now (weekday now) of
                    Inl e \<Rightarrow> Inl e
                  | Inr start_this \<Rightarrow>
                      (case minus_days start_this 7 of
                         Inl e \<Rightarrow> Inl e
                       | Inr start_prev \<Rightarrow>
                           (case minus_days start_this 1 of
                              Inl e \<Rightarrow> Inl e
                            | Inr end_prev \<Rightarrow>
                                Inr (Some (isoformat start_prev), Some (isoformat end_prev)))))
          else (case re_search U ultimos_pattern t of
                  Some m \<Rightarrow>
                    (case (case group m 1 of None \<Rightarrow> Inl TypeError | Some g \<Rightarrow> py_int U g) of
                       Inl e \<Rightarrow> Inl e
                     | Inr n \<Rightarrow>
                         (case minus_days now n of
                            Inl e \<Rightarrow> Inl e
                          | Inr start \<Rightarrow> Inr (Some (isoformat start), Some (isoformat now))))
                | None \<Rightarrow>
                    (case re_search U desde_pattern t of
                       Some m \<Rightarrow> Inr (group m 1, group m 2)
                     | None \<Rightarrow> Inr (None, None))))"

section \<open>Slots\<close>

text \<open>
  The dict \<^verbatim>\<open>extract_slots\<close> returns, with its seven keys; \<open>None\<close> is Python's
  \<^verbatim>\<open>None\<close>.
\<close>

record slots =
  site :: "ustr option"
  area :: "ustr option"
  type :: "ustr option"
  status :: "ustr option"
  date_from :: "ustr option"
  date_to :: "ustr option"
  technician :: "ustr option"

text \<open>
  \<^verbatim>\<open>tech.capitalize()\<close> on the names of \<^verbatim>\<open>TECHS\<close>, which are ASCII: the first letter
  in upper case, the others in lower case.
\<close>

definition ascii_upper :: "uchar \<Rightarrow> uchar" where
  "ascii_upper c = (if 0x61 \<le> c \<and> c \<le> 0x7A then c - 32 else c)"

definition ascii_lower :: "uchar \<Rightarrow> uchar" where
  "ascii_lower c = (if 0x41 \<le> c \<and> c \<le> 0x5A then c + 32 else c)"

definition capitalize :: "ustr \<Rightarrow> ustr" where
  "capitalize s = (case s of [] \<Rightarrow> [] | c # cs \<Rightarrow> ascii_upper c # map ascii_lower cs)"

text \<open>The loop over \<^verbatim>\<open>TECHS\<close> with its \<^verbatim>\<open>break\<close>; the pattern is \<^verbatim>\<open>\b{tech}\b\<close>.\<close>

fun first_tech :: "unicode \<Rightarrow> string list \<Rightarrow> ustr \<Rightarrow> ustr option" where
  "first_tech U [] t = None"
| "first_tech U (tech # techs) t =
     (if found U (phrase tech) t then Some (capitalize (u tech)) else first_tech U techs t)"

definition extract_slots ::
  "unicode \<Rightarrow> date \<Rightarrow> ustr \<Rightarrow> ustr list \<Rightarrow> ustr list \<Rightarrow> error + slots" where
  "extract_slots U now text known_sites known_areas =
     (let t = norm U text;
          ty = None;
          ty = (if found U (phrase ''pm'') t then Some (u ''PM'') else ty);
          ty = (if found U (phrase ''cm'') t then Some (u ''CM'') else ty);
          st = (if str_in (u ''abiert'') t then Some (u ''Abierta'')
                else if str_in (u ''cerrad'') t then Some (u ''Cerrada'')
                else if str_in (u ''progreso'') t then Some (u ''En Progreso'')
                else None);
          tech = (if has_orders U t \<or> (str_in (u ''abiert'') t \<or> str_in (u ''cerrad'') t)
                  then first_tech U TECHS t else None)
      in case apply_date_pattern U now t of
           Inl e \<Rightarrow> Inl e
         | Inr (d_from, d_to) \<Rightarrow>
             Inr \<lparr>site = None, area = None, type = ty, status = st,
                  date_from = d_from, date_to = d_to, technician = tech\<rparr>)"

section \<open>Properties of the slots, as predicates\<close>

text \<open>The order of dates: by year, then month, then day.\<close>

definition date_le :: "date \<Rightarrow> date \<Rightarrow> bool" where
  "date_le a b =
     (year a < year b \<or>
      (year a = year b \<and> (month a < month b \<or> (month a = month b \<and> day a \<le> day b))))"

text \<open>
  One of the rules of \<^verbatim>\<open>_apply_date_pattern\<close> that compute the range from the calendar
  applies to \<open>t\<close>: a month name, \<^verbatim>\<open>este mes\<close>, \<^verbatim>\<open>mes pasado\<close>, \<^verbatim>\<open>esta semana\<close>,
  \<^verbatim>\<open>semana pasada\<close> or \<^verbatim>\<open>ultimos N dias\<close>.
\<close>

definition computed_range :: "unicode \<Rightarrow> ustr \<Rightarrow> bool" where
  "computed_range U t =
     (list_ex (\<lambda>p. found U (month_pattern (fst p)) t) MONTHS \<or>
      found U (phrase ''este mes'') t \<or> found U (phrase ''mes pasado'') t \<or>
      found U (phrase ''esta semana'') t \<or> found U (phrase ''semana pasada'') t \<or>
      found U ultimos_pattern t)"

text \<open>\<open>a\<close> and \<open>b\<close> are the two dates written in a \<^verbatim>\<open>desde ... hasta ...\<close> of \<open>t\<close>.\<close>

definition explicit_range :: "unicode \<Rightarrow> ustr \<Rightarrow> ustr \<Rightarrow> ustr \<Rightarrow> bool" where
  "explicit_range U t a b =
     (case re_search U desde_pattern t of
        None \<Rightarrow> False
      | Some m \<Rightarrow> group m 1 = Some a \<and> group m 2 = Some b)"

text \<open>
  \<open>w\<close> occurs in \<open>t\<close> as a whole word: somewhere in \<open>t\<close>, with no word character
  (\<^verbatim>\<open>\w\<close>) before it and none after it.
\<close>

definition standalone :: "unicode \<Rightarrow> ustr \<Rightarrow> ustr \<Rightarrow> bool" where
  "standalone U w t =
     (\<exists>pre post. t = pre @ w @ post \<and> (pre = [] \<or> \<not> isword U (last pre)) \<and>
                 (post = [] \<or> \<not> isword U (hd post)))"

text \<open>The order nouns of \<^verbatim>\<open>(ordenes|\<acute>ordenes|ots)\<close>.\<close>

definition ORDER_NOUNS :: "ustr list" where
  "ORDER_NOUNS = [u ''ordenes'', 0xF3 # u ''rdenes'', u ''ots'']"

text \<open>
  The letters of the words that the code looks for between two \<^verbatim>\<open>\b\<close>: the claims
  about whole words are for a Unicode database in which they are word characters, as
  they are in Python's.
\<close>

definition LETTERS :: ustr where
  "LETTERS = u ''abcdefghijklmnopqrstuvwxyz'' @ [0xF3]"

text \<open>
  The claim about a month name and a year is for a Unicode database with the ASCII
  classes that Python's has: the letters are word characters, U+0020 is white space
  and no word character, the digits \<^verbatim>\<open>0\<close> to \<^verbatim>\<open>9\<close> are decimal digits with their values
  and no white space.
\<close>

definition ascii_classes :: "unicode \<Rightarrow> bool" where
  "ascii_classes U =
     (list_all (isword U) LETTERS \<and> isspace U 0x20 \<and> \<not> isword U 0x20 \<and>
      list_all (\<lambda>k. decimal U (0x30 + k) = Some k \<and> \<not> isspace U (0x30 + k)) [0..9])"

text \<open>
  The last day of month \<open>m\<close> of year \<open>y\<close> in the Gregorian calendar, as the calendar
  states it (thirty days for April, June, September and November; February has 29 in
  the years divisible by 4 that are not divisible by 100, or are by 400), and a number
  below 100 in two decimal digits: what the claim says the resolver returns, to be
  compared with what the code computes.
\<close>

definition gregorian_last_day :: "int \<Rightarrow> int \<Rightarrow> int" where
  "gregorian_last_day y m =
     (if m = 2 then (if y mod 4 = 0 \<and> y mod 100 \<noteq> 0 \<or> y mod 400 = 0 then 29 else 28)
      else if m \<in> {4, 6, 9, 11} then 30 else 31)"

definition two_digits :: "int \<Rightarrow> ustr" where
  "two_digits n = [0x30 + n div 10, 0x30 + n mod 10]"

text \<open>
  The claim about accents is for a Unicode database with these laws, for all texts:
  lower-casing respects the equality of texts up to their marks; trimming a text
  before its marks are dropped changes the result by white space at its edges at
  most; U+0020 is white space and no word character.
\<close>

definition mark_laws :: "unicode \<Rightarrow> bool" where
  "mark_laws U =
     ((\<forall>x y. drop_marks U x = drop_marks U y \<longrightarrow>
             drop_marks U (str_lower U x) = drop_marks U (str_lower U y)) \<and>
      (\<forall>z. strip U (drop_marks U (strip U z)) = strip U (drop_marks U z)) \<and>
      isspace U 0x20 \<and> \<not> isword U 0x20)"

text \<open>The roster of technicians in the form the slot holds: the names of \<^verbatim>\<open>TECHS\<close>, capitalised.\<close>

definition ROSTER :: "ustr list" where
  "ROSTER =
     [u ''Andres'', u ''Esteban'', u ''Juan'', u ''Sebastian'', u ''Mateo'', u ''Jose'',
      u ''Pablo'']"

text \<open>The question \<^verbatim>\<open>cu\<acute>antas \<acute>ordenes tiene sebastian\<close>, with U+00E1 and U+00F3.\<close>

definition sebastian_question :: ustr where
  "sebastian_question = u ''cu'' @ [0xE1] @ u ''ntas '' @ [0xF3] @ u ''rdenes tiene sebastian''"

text \<open>The reference date of the examples: Saturday 2025-03-15.\<close>

definition ref_date :: date where
  "ref_date = \<lparr>year = 2025, month = 3, day = 15\<rparr>"

section \<open>Unicode restricted to Latin-1 and the combining diacritical marks\<close>

text \<open>
  The tables of Unicode for the characters U+0000 to U+00FF, with the block of
  combining diacritical marks U+0300 to U+036F as the only characters of category
  Mn: lower-casing, canonical decomposition (all of it for a string of Latin-1
  characters), white space, alphanumerics and decimal digits. Any other character is
  taken as a symbol: without case or decomposition, no white space, no word
  character, no digit.
\<close>

definition latin_lower :: "uchar \<Rightarrow> uchar" where
  "latin_lower c =
     (if (0x41 \<le> c \<and> c \<le> 0x5A) \<or> (0xC0 \<le> c \<and> c \<le> 0xDE \<and> c \<noteq> 0xD7) then c + 32 else c)"

definition latin_decomposition :: "(uchar \<times> ustr) list" where
  "latin_decomposition =
     [(0xC0, [0x41, 0x300]), (0xC1, [0x41, 0x301]), (0xC2, [0x41, 0x302]),
      (0xC3, [0x41, 0x303]), (0xC4, [0x41, 0x308]), (0xC5, [0x41, 0x30A]),
      (0xC7, [0x43, 0x327]), (0xC8, [0x45, 0x300]), (0xC9, [0x45, 0x301]),
      (0xCA, [0x45, 0x302]), (0xCB, [0x45, 0x308]), (0xCC, [0x49, 0x300]),
      (0xCD, [0x49, 0x301]), (0xCE, [0x49, 0x302]), (0xCF, [0x49, 0x308]),
      (0xD1, [0x4E, 0x303]), (0xD2, [0x4F, 0x300]), (0xD3, [0x4F, 0x301]),
      (0xD4, [0x4F, 0x302]), (0xD5, [0x4F, 0x303]), (0xD6, [0x4F, 0x308]),
      (0xD9, [0x55, 0x300]), (0xDA, [0x55, 0x301]), (0xDB, [0x55, 0x302]),
      (0xDC, [0x55, 0x308]), (0xDD, [0x59, 0x301]), (0xE0, [0x61, 0x300]),
      (0xE1, [0x61, 0x301]), (0xE2, [0x61, 0x302]), (0xE3, [0x61, 0x303]),
      (0xE4, [0x61, 0x308]), (0xE5, [0x61, 0x30A]), (0xE7, [0x63, 0x327]),
      (0xE8, [0x65, 0x300]), (0xE9, [0x65, 0x301]), (0xEA, [0x65, 0x302]),
      (0xEB, [0x65, 0x308]), (0xEC, [0x69, 0x300]), (0xED, [0x69, 0x301]),
      (0xEE, [0x69, 0x302]), (0xEF, [0x69, 0x308]), (0xF1, [0x6E, 0x303]),
      (0xF2, [0x6F, 0x300]), (0xF3, [0x6F, 0x301]), (0xF4, [0x6F, 0x302]),
      (0xF5, [0x6F, 0x303]), (0xF6, [0x6F, 0x308]), (0xF9, [0x75, 0x300]),
      (0xFA, [0x75, 0x301]), (0xFB, [0x75, 0x302]), (0xFC, [0x75, 0x308]),
      (0xFD, [0x79, 0x301]), (0xFF, [0x79, 0x308])]"

definition latin_nfd :: "uchar \<Rightarrow> ustr" where
  "latin_nfd c =
     (if c < 0xC0 then [c]
      else case map_of latin_decomposition c of None \<Rightarrow> [c] | Some d \<Rightarrow> d)"

definition latin_space :: "uchar \<Rightarrow> bool" where
  "latin_space c =
     (c = 0x20 \<or> (0x09 \<le> c \<and> c \<le> 0x0D) \<or> (0x1C \<le> c \<and> c \<le> 0x1F) \<or> c = 0x85 \<or> c = 0xA0)"

definition latin_alnum :: "uchar \<Rightarrow> bool" where
  "latin_alnum c =
     ((0x30 \<le> c \<and> c \<le> 0x39) \<or> (0x41 \<le> c \<and> c \<le> 0x5A) \<or> (0x61 \<le> c \<and> c \<le> 0x7A) \<or>
      c \<in> set [0xAA, 0xB2, 0xB3, 0xB5, 0xB9, 0xBA, 0xBC, 0xBD, 0xBE] \<or>
      (0xC0 \<le> c \<and> c \<le> 0xFF \<and> c \<noteq> 0xD7 \<and> c \<noteq> 0xF7))"

definition latin :: unicode where
  "latin =
     \<lparr> str_lower = map latin_lower,
       nfd = (\<lambda>s. concat (map latin_nfd s)),
       cat_Mn = (\<lambda>c. 0x300 \<le> c \<and> c \<le> 0x36F),
       isspace = latin_space,
       isalnum = latin_alnum,
       decimal = (\<lambda>c. if 0x30 \<le> c \<and> c \<le> 0x39 then Some (c - 0x30) else None) \<rparr>"

section \<open>Devices of the proofs\<close>

text \<open>
  What \<^verbatim>\<open>re.sub(r"\s+", " ", s)\<close> computes: every run of white space becomes one
  space; \<open>prev\<close> says that the character before was white space.
\<close>

fun squeeze :: "(uchar \<Rightarrow> bool) \<Rightarrow> bool \<Rightarrow> ustr \<Rightarrow> ustr" where
  "squeeze P prev [] = []"
| "squeeze P prev (x # xs) =
     (if P x then (if prev then squeeze P True xs else 0x20 # squeeze P True xs)
      else x # squeeze P False xs)"

text \<open>\<open>trim P\<close> is \<^verbatim>\<open>str.strip\<close> for the white space \<open>P\<close>.\<close>

definition trim :: "(uchar \<Rightarrow> bool) \<Rightarrow> ustr \<Rightarrow> ustr" where
  "trim P s = rev (dropWhile P (rev (dropWhile P s)))"

text \<open>
  A text and the same text with one more space at its end, or at its start, for a
  pattern \<open>r\<close>: \<open>stable\<close>, the matches of \<open>r\<close> in the two are the same; \<open>dead\<close>, \<open>r\<close>
  has no match in the empty text; \<open>skips\<close>, \<open>r\<close> has no match that starts at a leading
  space.
\<close>

definition ext :: "mstate \<Rightarrow> mstate" where
  "ext st = (case st of (w, s, g) \<Rightarrow> (w, s @ [0x20], g))"

definition stable :: "unicode \<Rightarrow> rx \<Rightarrow> bool" where
  "stable U r = (\<forall>w s g. ms U r (w, s @ [0x20], g) = map ext (ms U r (w, s, g)))"

definition dead :: "unicode \<Rightarrow> rx \<Rightarrow> bool" where
  "dead U r = (\<forall>w g. ms U r (w, [], g) = [])"

definition skips :: "unicode \<Rightarrow> rx \<Rightarrow> bool" where
  "skips U r = (\<forall>t g. ms U r (False, 0x20 # t, g) = [])"

text \<open>
  The characters of the Latin-1 tables and the combining marks of \<open>latin\<close>; the base
  character of a character, the first of its decomposition; what the proofs use of
  the tables, for one Latin-1 character.
\<close>

definition latin1 :: "uchar \<Rightarrow> bool" where
  "latin1 c = (0 \<le> c \<and> c \<le> 0xFF)"

definition mark :: "uchar \<Rightarrow> bool" where
  "mark c = (0x300 \<le> c \<and> c \<le> 0x36F)"

definition latin_base :: "uchar \<Rightarrow> uchar" where
  "latin_base c = hd (latin_nfd c)"

definition latin1_table_ok :: "uchar \<Rightarrow> bool" where
  "latin1_table_ok c =
     (filter (\<lambda>ch. \<not> mark ch) (latin_nfd c) = [latin_base c] \<and>
      latin_base (latin_lower c) = latin_lower (latin_base c) \<and>
      latin_space (latin_base c) = latin_space c)"

section \<open>The calendar\<close>

lemma days_in_month_bounds: "28 \<le> days_in_month y m \<and> days_in_month y m \<le> 31"
  by (simp add: days_in_month_def)

lemma days_in_month_12: "days_in_month y 12 = 31"
  by (simp add: days_in_month_def)

lemma prev_day_valid:
  assumes "valid_date d" "prev_day d = Some p"
  shows "valid_date p \<and> date_le p d"
proof -
  consider (a) "1 < day d" | (b) "day d = 1" "1 < month d" | (c) "day d = 1" "month d = 1" "1 < year d"
    using assms by (auto simp: valid_date_def prev_day_def split: if_splits)
  then show ?thesis
  proof cases
    case a
    with assms show ?thesis
      by (auto simp add: valid_date_def prev_day_def date_le_def)
  next
    case b
    with assms days_in_month_bounds[of "year d" "month d - 1"] show ?thesis
      by (auto simp add: valid_date_def prev_day_def date_le_def)
  next
    case c
    with assms show ?thesis
      by (auto simp add: valid_date_def prev_day_def date_le_def days_in_month_12)
  qed
qed

lemma date_le_refl: "date_le d d"
  by (simp add: date_le_def)

lemma date_le_trans: "date_le a b \<Longrightarrow> date_le b c \<Longrightarrow> date_le a c"
  by (auto simp: date_le_def)

declare days_back.simps [simp del]

lemma days_back_valid:
  "valid_date d \<Longrightarrow> days_back n d = Some r \<Longrightarrow> valid_date r \<and> date_le r d"
proof (induction n d rule: days_back.induct)
  case (1 n d)
  show ?case
  proof (cases "n \<le> 0")
    case True
    with "1.prems" show ?thesis by (simp add: days_back.simps[of n d] date_le_refl)
  next
    case False
    with "1.prems" obtain p where p: "prev_day d = Some p" and r: "days_back (n - 1) p = Some r"
      by (auto simp: days_back.simps[of n d] split: option.splits)
    from prev_day_valid[OF "1.prems"(1) p] have vp: "valid_date p" and lp: "date_le p d" by auto
    from "1.IH"[OF False p vp r] have "valid_date r" "date_le r p" by auto
    with lp show ?thesis by (auto intro: date_le_trans)
  qed
qed

lemma days_back_add:
  "0 \<le> n \<Longrightarrow> 0 \<le> k \<Longrightarrow>
   days_back (n + k) d = (case days_back n d of None \<Rightarrow> None | Some p \<Rightarrow> days_back k p)"
proof (induction n d rule: days_back.induct)
  case (1 n d)
  show ?case
  proof (cases "n \<le> 0")
    case True
    with "1.prems" have "n = 0" by simp
    then show ?thesis by (simp add: days_back.simps[of 0 d])
  next
    case False
    show ?thesis
    proof (cases "prev_day d")
      case None
      with False "1.prems" show ?thesis
        by (simp add: days_back.simps[of n d] days_back.simps[of "n + k" d])
    next
      case (Some p)
      from "1.IH"[OF False Some] False "1.prems"
      have "days_back (n - 1 + k) p = (case days_back (n - 1) p of None \<Rightarrow> None | Some q \<Rightarrow> days_back k q)"
        by simp
      moreover have "n + k - 1 = n - 1 + k" by simp
      ultimately have "days_back (n + k - 1) p = (case days_back (n - 1) p of None \<Rightarrow> None | Some q \<Rightarrow> days_back k q)"
        by (simp only:)
      then show ?thesis using False Some "1.prems"
        by (simp add: days_back.simps[of n d] days_back.simps[of "n + k" d])
    qed
  qed
qed

lemma length_zpad [simp]: "length (zpad w n) = w"
  by (induction w arbitrary: n) simp_all

lemma less_append_same_length:
  "length xs = length ys \<Longrightarrow> (xs @ us < ys @ vs) = (xs < ys \<or> (xs = ys \<and> us < vs))"
  for xs :: "int list"
  by (induction xs ys rule: list_induct2) auto

lemma zpad_less:
  "0 \<le> a \<Longrightarrow> a < b \<Longrightarrow> b < 10 ^ w \<Longrightarrow> zpad w a < zpad w b"
proof (induction w arbitrary: a b)
  case 0
  then show ?case by simp
next
  case (Suc w)
  have q: "a div 10 \<le> b div 10" using Suc.prems by (simp add: zdiv_mono1)
  have bw: "b div 10 < 10 ^ w" using Suc.prems by (simp add: div_less_iff_less_mult mult.commute)
  have a0: "0 \<le> a div 10" using Suc.prems by simp
  show ?case
  proof (cases "a div 10 < b div 10")
    case True
    from Suc.IH[OF a0 True bw] show ?thesis
      by (simp add: less_append_same_length)
  next
    case False
    with q have e: "a div 10 = b div 10" by simp
    have "a mod 10 < b mod 10"
      using Suc.prems(2) e by (metis add_less_cancel_left mult_div_mod_eq)
    with e show ?thesis by (simp add: less_append_same_length)
  qed
qed

lemma zpad_le:
  "0 \<le> a \<Longrightarrow> a \<le> b \<Longrightarrow> b < 10 ^ w \<Longrightarrow> zpad w a \<le> zpad w b"
  using zpad_less[of a b w] by (cases "a = b") (auto simp: less_le)

lemma isoformat_mono:
  assumes "valid_date a" "valid_date b" "date_le a b"
  shows "isoformat a \<le> isoformat b"
proof -
  have ra: "0 \<le> year a" "0 \<le> month a" "0 \<le> day a" "year a < 10 ^ 4"
    "month a < 10 ^ 2" "day a < 10 ^ 2"
    using assms(1) days_in_month_bounds[of "year a" "month a"] by (auto simp: valid_date_def)
  have rb: "0 \<le> year b" "0 \<le> month b" "0 \<le> day b" "year b < 10 ^ 4"
    "month b < 10 ^ 2" "day b < 10 ^ 2"
    using assms(2) days_in_month_bounds[of "year b" "month b"] by (auto simp: valid_date_def)
  consider (y) "year a < year b"
    | (m) "year a = year b" "month a < month b"
    | (d) "year a = year b" "month a = month b" "day a \<le> day b"
    using assms(3) by (auto simp: date_le_def)
  then show ?thesis
  proof cases
    case y
    from zpad_less[OF ra(1) y rb(4)] show ?thesis
      by (simp add: isoformat_def less_append_same_length less_imp_le)
  next
    case m
    from zpad_less[OF ra(2) m(2) rb(5)] m(1) show ?thesis
      by (simp add: isoformat_def less_append_same_length less_imp_le)
  next
    case d
    from zpad_le[OF ra(3) d(3) rb(6)] d(1,2) show ?thesis
      by (auto simp add: isoformat_def less_append_same_length le_less)
  qed
qed


lemma days_back_1: "days_back 1 d = prev_day d"
  by (simp add: days_back.simps[of 1 d] days_back.simps[of 0] split: option.splits)

lemma month_range_eq:
  assumes "1 \<le> y" "y \<le> 9999" "1 \<le> m" "m \<le> 12" "m < 12 \<or> y < 9999"
  shows "month_range y m =
           Inr (isoformat \<lparr>year = y, month = m, day = 1\<rparr>,
                isoformat \<lparr>year = y, month = m, day = days_in_month y m\<rparr>)"
proof -
  have s: "mk_date y m 1 = Inr \<lparr>year = y, month = m, day = 1\<rparr>"
    using assms days_in_month_bounds[of y m] by (simp add: mk_date_def valid_date_def)
  show ?thesis
  proof (cases "m = 12")
    case True
    with assms have n: "mk_date (y + 1) 1 1 = Inr \<lparr>year = y + 1, month = 1, day = 1\<rparr>"
      using days_in_month_bounds[of "y + 1" 1] by (simp add: mk_date_def valid_date_def)
    have "prev_day \<lparr>year = y + 1, month = 1, day = 1\<rparr> = Some \<lparr>year = y, month = 12, day = 31\<rparr>"
      using assms by (simp add: prev_day_def)
    with s n True show ?thesis
      by (simp add: month_range_def minus_days_def days_back_1 days_in_month_12)
  next
    case False
    with assms have n: "mk_date y (m + 1) 1 = Inr \<lparr>year = y, month = m + 1, day = 1\<rparr>"
      using days_in_month_bounds[of y "m + 1"] by (simp add: mk_date_def valid_date_def)
    have "prev_day \<lparr>year = y, month = m + 1, day = 1\<rparr> =
            Some \<lparr>year = y, month = m, day = days_in_month y m\<rparr>"
      using assms by (simp add: prev_day_def)
    with s n False show ?thesis
      by (simp add: month_range_def minus_days_def days_back_1)
  qed
qed

lemma month_range_Inr:
  assumes "month_range y m = Inr r"
  shows "1 \<le> y \<and> y \<le> 9999 \<and> 1 \<le> m \<and> m \<le> 12 \<and> (m < 12 \<or> y < 9999)"
proof -
  from assms have v: "valid_date \<lparr>year = y, month = m, day = 1\<rparr>"
    by (auto simp: month_range_def mk_date_def split: if_splits sum.splits)
  show ?thesis
  proof (cases "m = 12")
    case True
    with assms have "valid_date \<lparr>year = y + 1, month = 1, day = 1\<rparr>"
      by (auto simp: month_range_def mk_date_def split: if_splits sum.splits)
    with v show ?thesis by (simp add: valid_date_def)
  next
    case False
    with v show ?thesis by (simp add: valid_date_def)
  qed
qed

lemma month_range_le:
  assumes "month_range y m = Inr (a, b)"
  shows "a \<le> b"
proof -
  from month_range_Inr[OF assms]
  have r: "1 \<le> y" "y \<le> 9999" "1 \<le> m" "m \<le> 12" "m < 12 \<or> y < 9999" by auto
  have d: "1 \<le> days_in_month y m" using days_in_month_bounds[of y m] by simp
  have "isoformat \<lparr>year = y, month = m, day = 1\<rparr> \<le>
        isoformat \<lparr>year = y, month = m, day = days_in_month y m\<rparr>"
    by (rule isoformat_mono) (use r d in \<open>auto simp: valid_date_def date_le_def\<close>)
  with assms month_range_eq[OF r] show ?thesis by simp
qed

lemma month_loop_le:
  "month_loop U now months t = Inr (Some (a, b)) \<Longrightarrow> a \<le> b"
proof (induction months)
  case Nil
  then show ?case by simp
next
  case (Cons p months)
  obtain name m where p: "p = (name, m)" by (cases p)
  show ?case
  proof (cases "re_search U (month_pattern name) t")
    case None
    with Cons p show ?thesis by simp
  next
    case (Some mobj)
    with Cons.prems p obtain y where "month_range y m = Inr (a, b)"
      by (auto split: sum.splits)
    then show ?thesis by (rule month_range_le)
  qed
qed

lemma found_iff: "found U r t = (re_search U r t \<noteq> None)"
  by (simp add: found_def split: option.splits)

lemma month_loop_none:
  "\<not> list_ex (\<lambda>p. found U (month_pattern (fst p)) t) months \<Longrightarrow>
   month_loop U now months t = Inr None"
  by (induction months) (auto simp: found_def split: option.splits)

lemma month_loop_some:
  "list_ex (\<lambda>p. found U (month_pattern (fst p)) t) months \<Longrightarrow>
   month_loop U now months t \<noteq> Inr None"
  by (induction months) (auto simp: found_def split: sum.splits option.splits)

lemma weekday_range: "0 \<le> weekday d \<and> weekday d < 7"
  by (simp add: weekday_def)

lemma minus_days_valid:
  assumes "valid_date d" "minus_days d n = Inr r"
  shows "valid_date r \<and> date_le r d"
proof -
  from assms(2) have "days_back n d = Some r"
    by (auto simp: minus_days_def split: if_splits option.splits)
  with assms(1) show ?thesis by (rule days_back_valid)
qed

lemma minus_days_iso:
  assumes "valid_date d" "minus_days d n = Inr r"
  shows "isoformat r \<le> isoformat d"
  using minus_days_valid[OF assms] assms(1) by (auto intro: isoformat_mono)

lemma first_of_month:
  assumes "valid_date d"
  shows "valid_date (d\<lparr>day := 1\<rparr>) \<and> date_le (d\<lparr>day := 1\<rparr>) d"
  using assms by (auto simp: valid_date_def date_le_def)

lemma week_before:
  assumes v: "valid_date d" and a: "minus_days d 7 = Inr a" and b: "minus_days d 1 = Inr b"
  shows "isoformat a \<le> isoformat b"
proof -
  from a have a': "days_back 7 d = Some a"
    by (auto simp: minus_days_def split: if_splits option.splits)
  from b have b': "days_back 1 d = Some b"
    by (auto simp: minus_days_def split: if_splits option.splits)
  have "days_back 7 d = (case days_back 1 d of None \<Rightarrow> None | Some p \<Rightarrow> days_back 6 p)"
    using days_back_add[of 1 6 d] by simp
  with a' b' have ba: "days_back 6 b = Some a" by simp
  from days_back_valid[OF v b'] have vb: "valid_date b" by simp
  from days_back_valid[OF vb ba] vb show ?thesis
    by (auto intro: isoformat_mono)
qed

lemma apply_date_pattern_order:
  assumes r: "apply_date_pattern U now t = Inr (Some a, Some b)" and v: "valid_date now"
  shows "if computed_range U t then a \<le> b else explicit_range U t a b"
proof (cases "list_ex (\<lambda>p. found U (month_pattern (fst p)) t) MONTHS")
  case True
  from month_loop_some[OF True, of now] r
  have "month_range_from_name U now t = Inr (Some (a, b))"
    by (auto simp: apply_date_pattern_def month_range_from_name_def split: sum.splits option.splits)
  then have "a \<le> b" by (simp add: month_range_from_name_def month_loop_le)
  with True show ?thesis by (simp add: computed_range_def)
next
  case nm: False
  then have m: "month_range_from_name U now t = Inr None"
    by (simp add: month_range_from_name_def month_loop_none)
  note fm = first_of_month[OF v]
  show ?thesis
  proof (cases "found U (phrase ''este mes'') t")
    case True
    with r m have "a = isoformat (now\<lparr>day := 1\<rparr>)" "b = isoformat now"
      by (simp_all add: apply_date_pattern_def)
    with fm v have "a \<le> b" by (auto intro: isoformat_mono)
    with True show ?thesis by (simp add: computed_range_def)
  next
    case f1: False
    show ?thesis
    proof (cases "found U (phrase ''mes pasado'') t")
      case True
      with r m f1 obtain lp where lp: "minus_days (now\<lparr>day := 1\<rparr>) 1 = Inr lp"
        and ab: "a = isoformat (lp\<lparr>day := 1\<rparr>)" "b = isoformat lp"
        by (auto simp: apply_date_pattern_def split: sum.splits)
      from minus_days_valid[OF _ lp] fm have "valid_date lp" by simp
      from first_of_month[OF this] \<open>valid_date lp\<close> ab have "a \<le> b"
        by (auto intro: isoformat_mono)
      with True show ?thesis by (simp add: computed_range_def)
    next
      case f2: False
      show ?thesis
      proof (cases "found U (phrase ''esta semana'') t")
        case True
        with r m f1 f2 obtain st where st: "minus_days now (weekday now) = Inr st"
          and ab: "a = isoformat st" "b = isoformat now"
          by (auto simp: apply_date_pattern_def split: sum.splits)
        from minus_days_iso[OF v st] ab have "a \<le> b" by simp
        with True show ?thesis by (simp add: computed_range_def)
      next
        case f3: False
        show ?thesis
        proof (cases "found U (phrase ''semana pasada'') t")
          case True
          with r m f1 f2 f3 obtain st sp ep where st: "minus_days now (weekday now) = Inr st"
            and sp: "minus_days st 7 = Inr sp" and ep: "minus_days st 1 = Inr ep"
            and ab: "a = isoformat sp" "b = isoformat ep"
            by (auto simp: apply_date_pattern_def split: sum.splits)
          from minus_days_valid[OF v st] have "valid_date st" by simp
          from week_before[OF this sp ep] ab have "a \<le> b" by simp
          with True show ?thesis by (simp add: computed_range_def)
        next
          case f4: False
          show ?thesis
          proof (cases "re_search U ultimos_pattern t")
            case (Some mobj)
            with r m f1 f2 f3 f4 obtain n st where st: "minus_days now n = Inr st"
              and ab: "a = isoformat st" "b = isoformat now"
              by (auto simp: apply_date_pattern_def split: sum.splits option.splits)
            from minus_days_iso[OF v st] ab have "a \<le> b" by simp
            with Some show ?thesis by (simp add: computed_range_def found_iff)
          next
            case None
            with nm f1 f2 f3 f4 have c: "\<not> computed_range U t"
              by (simp add: computed_range_def found_iff)
            from r m f1 f2 f3 f4 None have "explicit_range U t a b"
              by (auto simp: apply_date_pattern_def explicit_range_def split: option.splits)
            with c show ?thesis by simp
          qed
        qed
      qed
    qed
  qed
qed

section \<open>The fields of the slots\<close>

lemma first_tech_find:
  "first_tech U techs t =
     map_option (\<lambda>tech. capitalize (u tech)) (find (\<lambda>tech. found U (phrase tech) t) techs)"
  by (induction techs) simp_all

lemma roster_capitalized:
  "map (\<lambda>tech. capitalize (u tech)) TECHS =
     [u ''Andres'', u ''Esteban'', u ''Juan'', u ''Sebastian'', u ''Mateo'', u ''Jose'',
      u ''Pablo'']"
  by code_simp

lemma extract_slots_fields:
  assumes "extract_slots U now text ks ka = Inr s"
  shows "type s =
           (if found U (phrase ''cm'') (norm U text) then Some (u ''CM'')
            else if found U (phrase ''pm'') (norm U text) then Some (u ''PM'') else None)"
    and "status s =
           (if str_in (u ''abiert'') (norm U text) then Some (u ''Abierta'')
            else if str_in (u ''cerrad'') (norm U text) then Some (u ''Cerrada'')
            else if str_in (u ''progreso'') (norm U text) then Some (u ''En Progreso'')
            else None)"
    and "technician s =
           (if has_orders U (norm U text) \<or> str_in (u ''abiert'') (norm U text) \<or>
               str_in (u ''cerrad'') (norm U text)
            then first_tech U TECHS (norm U text) else None)"
    and "apply_date_pattern U now (norm U text) = Inr (date_from s, date_to s)"
  using assms
  by (auto simp: extract_slots_def Let_def split: sum.splits prod.splits)

lemma month_loop_skip:
  "\<not> list_ex (\<lambda>p. found U (month_pattern (fst p)) t) before \<Longrightarrow>
   month_loop U now (before @ months) t = month_loop U now months t"
  by (induction before) (auto simp: found_def split: option.splits)

lemma months_in_year: "list_all (\<lambda>p. 1 \<le> snd p \<and> snd p \<le> 12) MONTHS"
  by code_simp

lemma months_spellings:
  "map_of MONTHS ''septiembre'' = Some 9 \<and> map_of MONTHS ''setiembre'' = Some 9"
  by code_simp

lemma find_in_roster:
  "map_option (\<lambda>tech. capitalize (u tech)) (find P TECHS) \<in> set (None # map Some ROSTER)"
proof (cases "find P TECHS")
  case None
  then show ?thesis by simp
next
  case (Some tech)
  then have "tech \<in> set TECHS" by (auto simp: find_Some_iff)
  then have "capitalize (u tech) \<in> set (map (\<lambda>tech. capitalize (u tech)) TECHS)"
    by simp
  then have "capitalize (u tech) \<in> set ROSTER"
    by (simp only: roster_capitalized ROSTER_def)
  with Some show ?thesis by simp
qed

section \<open>White space: trimming and collapsing\<close>

declare sub_from.simps [simp del]

lemma squeeze_dropWhile: "squeeze P True xs = squeeze P False (dropWhile P xs)"
  by (induction xs) simp_all

lemma star_step_nonempty: "star k f st \<noteq> []"
  by (cases k) simp_all

lemma step_Nil [simp]: "step U P (w, [], g) = []"
  by (simp add: step_def)

lemma step_Cons [simp]:
  "step U P (w, x # xs, g) = (if P x then [(isword U x, xs, g)] else [])"
  by (simp add: step_def)

lemma rest_simp [simp]: "rest (w, s, g) = s"
  by (simp add: rest_def)

lemma ms_Space_step: "ms U Space = step U (isspace U)"
  by (rule ext) simp

lemma star_step_hd:
  "length s \<le> k \<Longrightarrow> rest (hd (star k (step U P) (w, s, g))) = dropWhile P s"
proof (induction s arbitrary: k w)
  case Nil
  then show ?case by (cases k) simp_all
next
  case (Cons x xs)
  then obtain j where k: "k = Suc j" and j: "length xs \<le> j" by (cases k) auto
  show ?case
  proof (cases "P x")
    case True
    with Cons.IH[OF j, of "isword U x"] star_step_nonempty[of j "step U P" "(isword U x, xs, g)"]
    show ?thesis by (simp add: k)
  next
    case False
    then show ?thesis by (simp add: k)
  qed
qed

lemma ms_plus_space:
  "ms U (plus Space) (w, s, g) =
     (case s of [] \<Rightarrow> []
      | x # xs \<Rightarrow> if isspace U x then star (length xs) (step U (isspace U)) (isword U x, xs, g)
                  else [])"
  by (simp add: plus_def ms_Space_step split: list.splits)

lemma sub_from_spaces:
  "sub_from U (plus Space) [0x20] w s = squeeze (isspace U) False s"
proof (induction s arbitrary: w rule: length_induct)
  case (1 s)
  show ?case
  proof (cases s)
    case Nil
    then show ?thesis by (simp add: sub_from.simps[of _ _ _ _ "[]"] ms_plus_space)
  next
    case (Cons x xs)
    show ?thesis
    proof (cases "isspace U x")
      case False
      with Cons "1.IH" show ?thesis
        by (simp add: sub_from.simps[of _ _ _ _ "x # xs"] ms_plus_space)
    next
      case True
      let ?l = "star (length xs) (step U (isspace U)) (isword U x, xs, [])"
      obtain m l where l: "?l = m # l"
        using star_step_nonempty[of "length xs" "step U (isspace U)" "(isword U x, xs, [])"]
        by (cases ?l) auto
      from star_step_hd[of xs "length xs" U "isspace U" "isword U x" "[]"] l
      have r: "rest m = dropWhile (isspace U) xs" by simp
      have len: "length (dropWhile (isspace U) xs) < length s"
        using length_dropWhile_le[of "isspace U" xs] Cons by simp
      from "1.IH" len
      have "sub_from U (plus Space) [0x20] (fst m) (dropWhile (isspace U) xs) =
              squeeze (isspace U) False (dropWhile (isspace U) xs)" by blast
      with True Cons l r len show ?thesis
        by (simp add: sub_from.simps[of _ _ _ _ "x # xs"] ms_plus_space squeeze_dropWhile)
    qed
  qed
qed

lemma norm_squeeze:
  "norm U s = squeeze (isspace U) False (drop_marks U (strip U (str_lower U s)))"
  by (simp add: norm_def re_sub_def u_def sub_from_spaces)

lemma strip_trim: "strip U s = trim (isspace U) s"
  by (simp add: strip_def trim_def)

lemma trim_cong: "(\<And>c. c \<in> set s \<Longrightarrow> P c = Q c) \<Longrightarrow> trim P s = trim Q s"
proof -
  assume a: "\<And>c. c \<in> set s \<Longrightarrow> P c = Q c"
  have 1: "dropWhile P s = dropWhile Q s" by (rule dropWhile_cong) (simp_all add: a)
  have "dropWhile P (rev (dropWhile Q s)) = dropWhile Q (rev (dropWhile Q s))"
    by (rule dropWhile_cong) (auto simp: a dest: set_dropWhileD)
  with 1 show ?thesis by (simp add: trim_def)
qed

lemma set_trim: "set (trim P s) \<subseteq> set s"
  by (auto simp: trim_def dest!: set_dropWhileD)

lemma trim_map:
  assumes "\<And>c. c \<in> set s \<Longrightarrow> P (f c) = P c"
  shows "trim P (map f s) = map f (trim P s)"
proof -
  have 1: "dropWhile P (map f s) = map f (dropWhile P s)"
    unfolding dropWhile_map by (rule arg_cong[where f = "map f"], rule dropWhile_cong)
      (simp_all add: assms)
  have 2: "dropWhile P (map f (rev (dropWhile P s))) = map f (dropWhile P (rev (dropWhile P s)))"
    unfolding dropWhile_map by (rule arg_cong[where f = "map f"], rule dropWhile_cong)
      (auto simp: assms dest: set_dropWhileD)
  show ?thesis by (simp add: trim_def 1 rev_map 2)
qed

lemma trim_split:
  "\<exists>p q. s = p @ trim P s @ q \<and> list_all P p \<and> list_all P q \<and> set p \<subseteq> set s \<and> set q \<subseteq> set s"
proof -
  let ?d = "dropWhile P s"
  have 1: "s = takeWhile P s @ ?d" by simp
  have "?d = rev (takeWhile P (rev ?d) @ dropWhile P (rev ?d))"
    by (simp only: takeWhile_dropWhile_id rev_rev_ident)
  also have "\<dots> = rev (dropWhile P (rev ?d)) @ rev (takeWhile P (rev ?d))"
    by (rule rev_append)
  finally have 2: "?d = trim P s @ rev (takeWhile P (rev ?d))"
    by (simp only: trim_def)
  have 3: "list_all P (takeWhile P s)" "list_all P (rev (takeWhile P (rev ?d)))"
    by (auto simp: list_all_iff dest: set_takeWhileD)
  have 4: "set (takeWhile P s) \<subseteq> set s" "set (rev (takeWhile P (rev ?d))) \<subseteq> set s"
    by (auto dest!: set_takeWhileD set_dropWhileD)
  from 1 2 have "s = takeWhile P s @ trim P s @ rev (takeWhile P (rev ?d))" by simp
  with 3 4 show ?thesis by blast
qed

lemma last_dropWhile: "dropWhile P xs \<noteq> [] \<Longrightarrow> last (dropWhile P xs) = last xs"
  by (induction xs) (auto split: if_splits)

lemma trim_edges: "trim P s = [] \<or> (\<not> P (hd (trim P s)) \<and> \<not> P (last (trim P s)))"
proof (cases "trim P s = []")
  case False
  let ?d = "dropWhile P s"
  let ?e = "dropWhile P (rev ?d)"
  from False have e: "?e \<noteq> []" by (simp add: trim_def)
  have d: "?d \<noteq> []"
  proof
    assume "?d = []"
    then have "?e = dropWhile P (rev [])" by (simp only:)
    with e show False by simp
  qed
  have l: "\<not> P (hd ?e)" using e by (rule hd_dropWhile)
  have "last ?e = last (rev ?d)" using e by (simp add: last_dropWhile)
  also have "\<dots> = hd ?d" using d by (simp add: last_rev)
  finally have "\<not> P (last ?e)" using hd_dropWhile[OF d] by simp
  with l e show ?thesis by (simp add: trim_def hd_rev last_rev)
qed simp

lemma dropWhile_id_hd: "xs \<noteq> [] \<Longrightarrow> \<not> P (hd xs) \<Longrightarrow> dropWhile P xs = xs"
  by (cases xs) auto

lemma trim_id: "s = [] \<or> (\<not> P (hd s) \<and> \<not> P (last s)) \<Longrightarrow> trim P s = s"
proof (cases s)
  case (Cons x xs)
  assume "s = [] \<or> (\<not> P (hd s) \<and> \<not> P (last s))"
  with Cons have h: "\<not> P x" and l: "\<not> P (last s)" by auto
  from h Cons have 1: "dropWhile P s = s" by simp
  from Cons have "rev s \<noteq> []" and "hd (rev s) = last s" by (simp_all add: hd_rev)
  with l have "dropWhile P (rev s) = rev s" by (intro dropWhile_id_hd) simp_all
  with 1 show ?thesis by (simp add: trim_def)
qed (simp add: trim_def)

lemma trim_append_spaces:
  assumes "list_all P e"
  shows "rev (dropWhile P (rev (d @ e))) = rev (dropWhile P (rev d))"
proof -
  have "dropWhile P (rev e @ rev d) = dropWhile P (rev d)"
    by (rule dropWhile_append2) (use assms in \<open>auto simp: list_all_iff\<close>)
  then show ?thesis by simp
qed

text \<open>squeeze\<close>

lemma squeeze_set: "c \<in> set (squeeze P f xs) \<Longrightarrow> c = 0x20 \<or> (c \<in> set xs \<and> \<not> P c)"
  by (induction xs arbitrary: f) (auto split: if_splits)

lemma squeeze_cong:
  "(\<And>c. c \<in> set xs \<Longrightarrow> P c = Q c) \<Longrightarrow> squeeze P f xs = squeeze Q f xs"
  by (induction xs arbitrary: f) auto

lemma squeeze_idem:
  assumes "P 0x20"
  shows "squeeze P False (squeeze P False z) = squeeze P False z"
    and "squeeze P g (squeeze P True z) = squeeze P True z"
  using assms by (induction z arbitrary: g) auto

lemma squeeze_flag: "squeeze P f z = (if f then [] else if z \<noteq> [] \<and> P (hd z) then [0x20] else []) @ squeeze P True z"
  by (cases z) auto

lemma dropWhile_squeeze:
  assumes "P 0x20"
  shows "dropWhile P (squeeze P f z) = squeeze P True z"
proof -
  have t: "dropWhile P (squeeze P True z) = squeeze P True z"
    by (induction z) (auto)
  show ?thesis using assms by (subst squeeze_flag) (simp add: t)
qed

lemma squeeze_lead: "list_all P p \<Longrightarrow> squeeze P True (p @ m) = squeeze P True m"
  by (induction p) auto

lemma squeeze_spaces: "list_all P q \<Longrightarrow> squeeze P True q = []"
  by (induction q) auto

lemma squeeze_trail:
  "list_all P q \<Longrightarrow> \<exists>e. squeeze P f (m @ q) = squeeze P f m @ e \<and> list_all (\<lambda>c. c = 0x20) e"
proof (induction m arbitrary: f)
  case Nil
  have "squeeze P f q = [] \<or> squeeze P f q = [0x20]"
    using squeeze_spaces[OF Nil] by (cases q) auto
  then show ?case by auto
next
  case (Cons x m)
  from Cons.IH[OF Cons.prems] show ?case by (auto split: if_splits)
qed

lemma trim_squeeze_padded:
  assumes P: "P 0x20" and p: "list_all P p" and q: "list_all P q"
  shows "trim P (squeeze P False (p @ m @ q)) = trim P (squeeze P False m)"
proof -
  obtain e where e: "squeeze P True (m @ q) = squeeze P True m @ e"
    and e32: "list_all (\<lambda>c. c = 0x20) e"
    using squeeze_trail[OF q, of True m] by blast
  from e32 P have pe: "list_all P e" by (auto simp: list_all_iff)
  have "dropWhile P (squeeze P False (p @ m @ q)) = squeeze P True m @ e"
    by (simp add: dropWhile_squeeze[of P, OF P] squeeze_lead[OF p] e)
  moreover have "dropWhile P (squeeze P False m) = squeeze P True m"
    by (simp add: dropWhile_squeeze[of P, OF P])
  ultimately show ?thesis
    by (simp add: trim_def trim_append_spaces[OF pe] del: rev_append)
qed

lemma padded_by_trim:
  assumes "\<And>c. c \<in> set s \<Longrightarrow> P c \<Longrightarrow> c = 0x20"
  shows "\<exists>n k. s = replicate n 0x20 @ trim P s @ replicate k 0x20"
proof -
  obtain p q where s: "s = p @ trim P s @ q" and p: "list_all P p" and q: "list_all P q"
    and "set p \<subseteq> set s" "set q \<subseteq> set s"
    using trim_split[of s P] by blast
  with assms have "\<forall>c \<in> set p. c = 0x20" "\<forall>c \<in> set q. c = 0x20"
    by (auto simp: list_all_iff)
  then have "p = replicate (length p) 0x20" "q = replicate (length q) 0x20"
    by (simp_all add: replicate_length_same)
  with s show ?thesis by metis
qed

section \<open>Patterns and a space at the edge of the text\<close>

lemma ext_simp [simp]: "ext (w, s, g) = (w, s @ [0x20], g)"
  by (simp add: ext_def)

lemma stableD: "stable U r \<Longrightarrow> ms U r (ext st) = map ext (ms U r st)"
  by (cases st) (simp add: stable_def)

lemma step_ext: "\<not> p 0x20 \<Longrightarrow> step U p (w, s @ [0x20], g) = map ext (step U p (w, s, g))"
  by (cases s) simp_all

lemma stable_Lit: "c \<noteq> 0x20 \<Longrightarrow> stable U (Lit c)"
  by (simp add: stable_def step_ext)

lemma stable_OneOf: "0x20 \<notin> set cs \<Longrightarrow> stable U (OneOf cs)"
  by (simp add: stable_def step_ext)

lemma stable_Eps: "stable U Eps"
  by (simp add: stable_def)

lemma stable_Bnd: "\<not> isword U 0x20 \<Longrightarrow> stable U Bnd"
  by (auto simp: stable_def at_boundary_def split: list.splits)

lemma stable_Seq: "stable U a \<Longrightarrow> stable U b \<Longrightarrow> stable U (Seq a b)"
proof -
  assume a: "stable U a" and b: "stable U b"
  have "ms U (Seq a b) (w, s @ [0x20], g) = map ext (ms U (Seq a b) (w, s, g))" for w s g
  proof -
    have "ms U (Seq a b) (w, s @ [0x20], g) = concat (map (ms U b) (map ext (ms U a (w, s, g))))"
      using a by (simp add: stable_def)
    also have "\<dots> = concat (map (\<lambda>st. map ext (ms U b st)) (ms U a (w, s, g)))"
      using stableD[OF b] by (simp add: comp_def)
    also have "\<dots> = map ext (ms U (Seq a b) (w, s, g))"
      by (simp add: map_concat comp_def)
    finally show ?thesis .
  qed
  then show ?thesis by (simp add: stable_def)
qed

lemma stable_Alt: "stable U a \<Longrightarrow> stable U b \<Longrightarrow> stable U (Alt a b)"
  by (simp add: stable_def)

lemma capture_ext: "capture n (s @ [0x20]) (ext st) = ext (capture n s st)"
  by (cases st) (simp add: capture_def)

lemma stable_Grp: "stable U a \<Longrightarrow> stable U (Grp n a)"
  by (simp add: stable_def capture_ext comp_def)

lemma star_step_dead: "star k (step U p) (w, [], g) = [(w, [], g)]"
  by (cases k) simp_all

lemma star_step_ext:
  "length s \<le> k \<Longrightarrow> length s < k' \<Longrightarrow>
   filter (\<lambda>st. rest st \<noteq> []) (star k' (step U p) (w, s @ [0x20], g)) =
     map ext (star k (step U p) (w, s, g))"
proof (induction s arbitrary: k k' w)
  case Nil
  obtain j where "k' = Suc j" using Nil by (cases k') auto
  then show ?case by (simp add: star_step_dead)
next
  case (Cons x xs)
  obtain j where k: "k = Suc j" and j: "length xs \<le> j" using Cons.prems by (cases k) auto
  obtain j' where k': "k' = Suc j'" and j': "length xs < j'" using Cons.prems by (cases k') auto
  from Cons.IH[OF j j'] show ?case by (simp add: k k')
qed

lemma concat_map_filter:
  "(\<And>x. x \<in> set xs \<Longrightarrow> \<not> Q x \<Longrightarrow> f x = []) \<Longrightarrow>
   concat (map f xs) = concat (map f (filter Q xs))"
  by (induction xs) auto

lemma ms_dead_state: "dead U b \<Longrightarrow> rest st = [] \<Longrightarrow> ms U b st = []"
  by (cases st) (simp add: dead_def)

lemma stable_Star_step_Seq:
  assumes f: "ms U a = step U p" and d: "dead U b" and b: "stable U b"
  shows "stable U (Seq (Star a) b)"
proof -
  have "ms U (Seq (Star a) b) (w, s @ [0x20], g) = map ext (ms U (Seq (Star a) b) (w, s, g))"
    for w s g
  proof -
    let ?big = "star (Suc (length s)) (step U p) (w, s @ [0x20], g)"
    have "ms U (Seq (Star a) b) (w, s @ [0x20], g) = concat (map (ms U b) ?big)"
      by (simp add: f)
    also have "\<dots> = concat (map (ms U b) (filter (\<lambda>st. rest st \<noteq> []) ?big))"
      by (rule concat_map_filter) (simp add: ms_dead_state[OF d])
    also have "\<dots> = concat (map (ms U b) (map ext (star (length s) (step U p) (w, s, g))))"
      by (simp only: star_step_ext[OF order_refl lessI])
    also have "\<dots> = concat (map (\<lambda>st. map ext (ms U b st)) (star (length s) (step U p) (w, s, g)))"
      using stableD[OF b] by (simp add: comp_def)
    also have "\<dots> = map ext (ms U (Seq (Star a) b) (w, s, g))"
      by (simp add: map_concat comp_def f)
    finally show ?thesis .
  qed
  then show ?thesis by (simp add: stable_def)
qed

lemma stable_step_Seq:
  assumes f: "ms U a = step U p" and d: "dead U b" and b: "stable U b"
  shows "stable U (Seq a b)"
proof -
  have "ms U (Seq a b) (w, s @ [0x20], g) = map ext (ms U (Seq a b) (w, s, g))" for w s g
  proof (cases s)
    case Nil
    then show ?thesis using d by (simp add: f dead_def)
  next
    case (Cons x xs)
    then show ?thesis using stableD[OF b, of "(isword U x, xs, g)"] by (simp add: f)
  qed
  then show ?thesis by (simp add: stable_def)
qed

lemma ms_Lit_step: "ms U (Lit c) = step U (\<lambda>x. x = c)"
  by (rule ext) simp

lemmas stable_Lit_Seq = stable_step_Seq[OF ms_Lit_step]

lemma ms_Dot_step: "ms U Dot = step U (\<lambda>x. x \<noteq> 10)"
  by (rule ext) simp

lemmas stable_Star_Dot_Seq = stable_Star_step_Seq[OF ms_Dot_step]
lemmas stable_Star_Space_Seq = stable_Star_step_Seq[OF ms_Space_step]

lemma search_from_ext:
  assumes s: "stable U r" and d: "dead U r" and nw: "\<not> isword U 0x20"
  shows "search_from U r w (t @ [0x20]) = map_option ext (search_from U r w t)"
proof (induction t arbitrary: w)
  case Nil
  from d have "ms U r (w, [], []) = []" "ms U r (False, [], []) = []" by (simp_all add: dead_def)
  moreover from s this have "ms U r (w, [0x20], []) = []"
    using stableD[OF s, of "(w, [], [])"] by simp
  ultimately show ?case using nw by simp
next
  case (Cons x xs)
  have "ms U r (w, x # xs @ [0x20], []) = map ext (ms U r (w, x # xs, []))"
    using stableD[OF s, of "(w, x # xs, [])"] by simp
  with Cons show ?case by (simp split: list.splits)
qed

lemma found_ext:
  "stable U r \<Longrightarrow> dead U r \<Longrightarrow> \<not> isword U 0x20 \<Longrightarrow> found U r (t @ [0x20]) = found U r t"
  by (simp add: found_def re_search_def search_from_ext split: option.splits)

lemma sub_from_ext:
  assumes s: "stable U r" and d: "dead U r"
  shows "sub_from U r repl w (t @ [0x20]) = sub_from U r repl w t @ [0x20]"
proof (induction t arbitrary: w rule: length_induct)
  case (1 t)
  have e: "ms U r (w, t @ [0x20], []) = map ext (ms U r (w, t, []))"
    using stableD[OF s, of "(w, t, [])"] by simp
  from d have d0: "ms U r (v, [], []) = []" for v by (simp add: dead_def)
  show ?case
  proof (cases t)
    case Nil
    with e d0 show ?thesis
      by (simp add: sub_from.simps[of _ _ _ _ "[0x20]"] sub_from.simps[of _ _ _ _ "[]"])
  next
    case (Cons x xs)
    show ?thesis
    proof (cases "ms U r (w, t, [])")
      case Nil
      with e Cons "1.IH" show ?thesis
        by (simp add: sub_from.simps[of _ _ _ w "x # xs @ [0x20]"] sub_from.simps[of _ _ _ w "x # xs"])
    next
      case (Cons m ms')
      obtain w' t' g' where m: "m = (w', t', g')" by (cases m)
      show ?thesis
      proof (cases "length t' < length t")
        case True
        with "1.IH" have "sub_from U r repl w' (t' @ [0x20]) = sub_from U r repl w' t' @ [0x20]"
          by blast
        with e Cons m True \<open>t = x # xs\<close> show ?thesis
          by (simp add: sub_from.simps[of _ _ _ w "x # xs @ [0x20]"] sub_from.simps[of _ _ _ w "x # xs"])
      next
        case False
        with e Cons m \<open>t = x # xs\<close> "1.IH" show ?thesis
          by (simp add: sub_from.simps[of _ _ _ w "x # xs @ [0x20]"] sub_from.simps[of _ _ _ w "x # xs"])
      qed
    qed
  qed
qed

lemmas pattern_defs = word_def opt_def optional_s_def cuantos_grp_def
  orders_grp_def u_def FILLER_def

lemmas stable_rules = stable_Star_Dot_Seq stable_Star_Space_Seq stable_Lit_Seq stable_Seq stable_Alt
  stable_Grp stable_Lit stable_OneOf stable_Eps stable_Bnd

lemma dead_Lit: "dead U (Lit c)" by (simp add: dead_def)
lemma dead_OneOf: "dead U (OneOf cs)" by (simp add: dead_def)
lemma dead_Seq: "dead U a \<Longrightarrow> dead U (Seq a b)" by (simp add: dead_def)
lemma dead_Alt: "dead U a \<Longrightarrow> dead U b \<Longrightarrow> dead U (Alt a b)" by (simp add: dead_def)
lemma dead_Grp: "dead U a \<Longrightarrow> dead U (Grp n a)" by (simp add: dead_def)
lemma dead_Bnd_Seq: "dead U b \<Longrightarrow> dead U (Seq Bnd b)" by (simp add: dead_def)
lemma dead_Star_Seq: "dead U b \<Longrightarrow> dead U (Seq (Star a) b)"
  by (simp add: dead_def rest_def)

lemmas dead_rules = dead_Bnd_Seq dead_Star_Seq dead_Seq dead_Alt dead_Grp dead_Lit dead_OneOf

lemma filler_stable: "stable U FILLER \<and> dead U FILLER"
  by (simp add: pattern_defs stable_rules dead_rules)

lemma orders_stable:
  "\<not> isword U 0x20 \<Longrightarrow>
   stable U (seqs [Bnd, orders_grp 1, Bnd]) \<and> dead U (seqs [Bnd, orders_grp 1, Bnd])"
  by (simp add: pattern_defs stable_rules dead_rules)

lemma intents_stable:
  "\<not> isword U 0x20 \<Longrightarrow> list_all (\<lambda>p. stable U (fst p) \<and> dead U (fst p)) INTENTS"
  by (simp add: INTENTS_def pattern_defs stable_rules dead_rules)

lemma skips_Lit: "c \<noteq> 0x20 \<Longrightarrow> skips U (Lit c)" by (simp add: skips_def)
lemma skips_Bnd: "\<not> isword U 0x20 \<Longrightarrow> skips U Bnd" by (simp add: skips_def at_boundary_def)
lemma skips_Seq: "skips U a \<Longrightarrow> skips U (Seq a b)" by (simp add: skips_def)
lemma skips_Alt: "skips U a \<Longrightarrow> skips U b \<Longrightarrow> skips U (Alt a b)" by (simp add: skips_def)
lemma skips_Grp: "skips U a \<Longrightarrow> skips U (Grp n a)" by (simp add: skips_def)

lemmas skips_rules = skips_Seq skips_Alt skips_Grp skips_Lit skips_Bnd

lemma found_lead:
  "skips U r \<Longrightarrow> \<not> isword U 0x20 \<Longrightarrow> found U r (0x20 # t) = found U r t"
  by (simp add: found_def re_search_def skips_def)

lemma sub_from_lead:
  "skips U r \<Longrightarrow> \<not> isword U 0x20 \<Longrightarrow>
   sub_from U r repl False (0x20 # t) = 0x20 # sub_from U r repl False t"
  by (simp add: sub_from.simps[of _ _ _ _ "0x20 # t"] skips_def)

lemma str_in_lead: "c \<noteq> 0x20 \<Longrightarrow> str_in (c # cs) (0x20 # t) = str_in (c # cs) t"
  by (simp add: str_in_def sublist_Cons_right)

lemma str_in_trail:
  assumes "w \<noteq> []" "last w \<noteq> 0x20"
  shows "str_in w (t @ [0x20]) = str_in w t"
proof -
  obtain c cs where r: "rev w = c # cs" and c: "c \<noteq> 0x20"
    using assms by (cases "rev w") (auto simp: last_rev[symmetric] simp del: last_rev)
  have "sublist w (t @ [0x20]) = sublist (rev w) (rev (t @ [0x20]))"
    by (rule sublist_rev[symmetric])
  also have "\<dots> = sublist (rev w) (rev t)" using c by (simp add: r sublist_Cons_right)
  finally show ?thesis by (simp add: str_in_def)
qed

lemma filler_skips: "skips U FILLER"
  by (simp add: pattern_defs skips_rules)

lemma orders_skips: "\<not> isword U 0x20 \<Longrightarrow> skips U (seqs [Bnd, orders_grp 1, Bnd])"
  by (simp add: skips_rules)

lemma intents_skips: "\<not> isword U 0x20 \<Longrightarrow> list_all (\<lambda>p. skips U (fst p)) INTENTS"
  by (simp add: INTENTS_def skips_rules)

lemma first_intent_lead:
  "list_all (\<lambda>p. skips U (fst p)) ps \<Longrightarrow> \<not> isword U 0x20 \<Longrightarrow>
   first_intent U ps (0x20 # t) = first_intent U ps t"
  by (induction ps) (auto simp: found_lead)

lemma first_intent_trail:
  "list_all (\<lambda>p. stable U (fst p) \<and> dead U (fst p)) ps \<Longrightarrow> \<not> isword U 0x20 \<Longrightarrow>
   first_intent U ps (t @ [0x20]) = first_intent U ps t"
  by (induction ps) (auto simp: found_ext)

lemma greetings_edges:
  "list_ex (\<lambda>g. str_in g (0x20 # t)) GREETINGS = list_ex (\<lambda>g. str_in g t) GREETINGS"
  "list_ex (\<lambda>g. str_in g (t @ [0x20])) GREETINGS = list_ex (\<lambda>g. str_in g t) GREETINGS"
  by (simp_all add: GREETINGS_def u_def str_in_lead str_in_trail)

lemma mentions_tech_edges:
  "mentions_tech (0x20 # t) = mentions_tech t"
  "mentions_tech (t @ [0x20]) = mentions_tech t"
  by (simp_all add: mentions_tech_def TECHS_def u_def str_in_lead str_in_trail)

lemma status_word_edges:
  "str_in (u ''abiert'') (0x20 # t) = str_in (u ''abiert'') t"
  "str_in (u ''cerrad'') (0x20 # t) = str_in (u ''cerrad'') t"
  "str_in (u ''progreso'') (0x20 # t) = str_in (u ''progreso'') t"
  "str_in (u ''abiert'') (t @ [0x20]) = str_in (u ''abiert'') t"
  "str_in (u ''cerrad'') (t @ [0x20]) = str_in (u ''cerrad'') t"
  "str_in (u ''progreso'') (t @ [0x20]) = str_in (u ''progreso'') t"
  by (simp_all add: u_def str_in_lead str_in_trail)

lemma has_orders_edges:
  assumes "\<not> isword U 0x20"
  shows "has_orders U (0x20 # t) = has_orders U t"
    and "has_orders U (t @ [0x20]) = has_orders U t"
proof -
  show "has_orders U (0x20 # t) = has_orders U t"
    unfolding has_orders_def by (rule found_lead[OF orders_skips[OF assms] assms])
  note o = orders_stable[OF assms]
  show "has_orders U (t @ [0x20]) = has_orders U t"
    unfolding has_orders_def by (rule found_ext[OF conjunct1[OF o] conjunct2[OF o] assms])
qed

lemma filler_edges:
  assumes "\<not> isword U 0x20"
  shows "re_sub U FILLER [] (0x20 # t) = 0x20 # re_sub U FILLER [] t"
    and "re_sub U FILLER [] (t @ [0x20]) = re_sub U FILLER [] t @ [0x20]"
proof -
  show "re_sub U FILLER [] (0x20 # t) = 0x20 # re_sub U FILLER [] t"
    unfolding re_sub_def by (rule sub_from_lead[OF filler_skips assms])
  note f = filler_stable[of U]
  show "re_sub U FILLER [] (t @ [0x20]) = re_sub U FILLER [] t @ [0x20]"
    unfolding re_sub_def by (rule sub_from_ext[OF conjunct1[OF f] conjunct2[OF f]])
qed

lemma intent_of_lead:
  assumes "\<not> isword U 0x20"
  shows "intent_of U (0x20 # t) = intent_of U t"
  by (simp add: intent_of_def greetings_edges mentions_tech_edges status_word_edges
      has_orders_edges[OF assms] filler_edges[OF assms]
      first_intent_lead[OF intents_skips[OF assms] assms] cong: option.case_cong if_cong)

lemma intent_of_trail:
  assumes "\<not> isword U 0x20"
  shows "intent_of U (t @ [0x20]) = intent_of U t"
  by (simp add: intent_of_def greetings_edges mentions_tech_edges status_word_edges
      has_orders_edges[OF assms] filler_edges[OF assms]
      first_intent_trail[OF intents_stable[OF assms] assms] cong: option.case_cong if_cong)

lemma intent_of_padded:
  assumes "\<not> isword U 0x20"
  shows "intent_of U (replicate n 0x20 @ t @ replicate k 0x20) = intent_of U t"
proof -
  have a: "intent_of U (replicate n 0x20 @ s) = intent_of U s" for s
    by (induction n) (simp_all add: intent_of_lead[OF assms])
  have b: "intent_of U (t @ replicate k 0x20) = intent_of U t"
  proof (induction k)
    case 0
    then show ?case by simp
  next
    case (Suc k)
    have "t @ replicate (Suc k) 0x20 = (t @ replicate k 0x20) @ [0x20]"
      by (simp add: replicate_append_same)
    with Suc show ?case by (simp only: intent_of_trail[OF assms])
  qed
  show ?thesis by (simp add: a b)
qed

section \<open>The Latin-1 tables and the marks\<close>

lemma latin1_table_all: "list_all latin1_table_ok [0..0xFF]"
  by code_simp

lemma latin1_table: "latin1 c \<Longrightarrow> latin1_table_ok c"
  using latin1_table_all by (simp add: list_all_iff latin1_def)

lemma decomposition_keys: "list_all (\<lambda>p. fst p \<le> 0xFF) latin_decomposition"
  by code_simp

lemma str_lower_latin: "str_lower latin s = map latin_lower s"
  by (simp add: latin_def)

lemma isspace_latin: "isspace latin = latin_space"
  by (simp add: latin_def)

lemma trim_padded:
  assumes p: "list_all P p" and q: "list_all P q"
  shows "trim P (p @ m @ q) = trim P m"
proof -
  have 1: "dropWhile P (p @ m @ q) = dropWhile P (m @ q)"
    by (rule dropWhile_append2) (use p in \<open>simp add: list_all_iff\<close>)
  show ?thesis
  proof (cases "list_all P m")
    case True
    then have a: "dropWhile P m = []" by (simp add: list_all_iff)
    from True have "dropWhile P (m @ q) = dropWhile P q"
      by (intro dropWhile_append2) (simp add: list_all_iff)
    also from q have "\<dots> = []" by (simp add: list_all_iff)
    finally have b: "dropWhile P (m @ q) = []" .
    show ?thesis by (simp only: trim_def 1 b a)
  next
    case False
    then obtain x where "x \<in> set m" "\<not> P x" by (auto simp: list_all_iff)
    then have b: "dropWhile P (m @ q) = dropWhile P m @ q" by (rule dropWhile_append1)
    show ?thesis by (simp only: trim_def 1 b trim_append_spaces[OF q])
  qed
qed

lemma trim_squeeze_trim:
  assumes "P 0x20"
  shows "trim P (squeeze P False s) = trim P (squeeze P False (trim P s))"
proof -
  obtain p q where s: "s = p @ trim P s @ q" and p: "list_all P p" and q: "list_all P q"
    using trim_split[of s P] by blast
  have "trim P (squeeze P False (p @ trim P s @ q)) = trim P (squeeze P False (trim P s))"
    using assms p q by (rule trim_squeeze_padded)
  with s show ?thesis by simp
qed

lemma latin_nfd_high: "0xFF < c \<Longrightarrow> latin_nfd c = [c]"
proof -
  assume c: "0xFF < c"
  have "map_of latin_decomposition c = None"
  proof (cases "map_of latin_decomposition c")
    case (Some d)
    then have "(c, d) \<in> set latin_decomposition" by (rule map_of_SomeD)
    with decomposition_keys have "c \<le> 0xFF" by (auto simp: list_all_iff)
    with c show ?thesis by simp
  qed simp
  then show ?thesis by (simp add: latin_nfd_def)
qed

lemma latin_base_outside: "\<not> latin1 c \<Longrightarrow> latin_base c = c"
  using latin_nfd_high[of c] by (auto simp: latin_base_def latin1_def latin_nfd_def)

lemma latin_space_base: "latin_space (latin_base c) = latin_space c"
proof (cases "latin1 c")
  case True
  with latin1_table[OF True] show ?thesis unfolding latin1_table_ok_def by blast
next
  case False
  then show ?thesis by (simp add: latin_base_outside)
qed

lemma drop_char:
  "filter (\<lambda>ch. \<not> mark ch) (latin_nfd c) = (if mark c then [] else [latin_base c])"
proof (cases "latin1 c")
  case True
  then have "\<not> mark c" by (simp add: latin1_def mark_def)
  with latin1_table[OF True] show ?thesis unfolding latin1_table_ok_def by simp
next
  case False
  then have "latin_nfd c = [c]"
    using latin_nfd_high[of c] by (auto simp: latin1_def latin_nfd_def)
  with False show ?thesis by (simp add: latin_base_outside)
qed

lemma drop_marks_latin_all:
  "drop_marks latin s = map latin_base (filter (\<lambda>c. \<not> mark c) s)"
proof -
  have "drop_marks latin s = concat (map (\<lambda>c. filter (\<lambda>ch. \<not> mark ch) (latin_nfd c)) s)"
    by (simp add: drop_marks_def latin_def mark_def filter_concat comp_def)
  also have "\<dots> = map latin_base (filter (\<lambda>c. \<not> mark c) s)"
    by (induction s) (simp_all add: drop_char)
  finally show ?thesis .
qed

lemma mark_lower: "mark (latin_lower c) = mark c"
  by (auto simp: mark_def latin_lower_def)

lemma base_lower: "latin_base (latin_lower c) = latin_lower (latin_base c)"
proof (cases "latin1 c")
  case True
  with latin1_table[OF True] show ?thesis unfolding latin1_table_ok_def by blast
next
  case False
  then have "latin_lower c = c" by (auto simp: latin1_def latin_lower_def)
  with False show ?thesis by (simp add: latin_base_outside)
qed

lemma drop_marks_lower:
  "drop_marks latin (str_lower latin s) = map latin_lower (drop_marks latin s)"
  by (induction s) (simp_all add: drop_marks_latin_all str_lower_latin mark_lower base_lower)

lemma space_not_mark: "latin_space c \<Longrightarrow> \<not> mark c"
  by (auto simp: latin_space_def mark_def)

lemma trim_drop_marks:
  "trim latin_space (drop_marks latin (trim latin_space z)) = trim latin_space (drop_marks latin z)"
proof -
  let ?P = latin_space
  let ?f = "filter (\<lambda>c. \<not> mark c)"
  obtain p q where z: "z = p @ trim ?P z @ q" and p: "list_all ?P p" and q: "list_all ?P q"
    using trim_split[of z ?P] by blast
  from p q have "?f p = p" "?f q = q"
    by (auto simp: list_all_iff space_not_mark intro: filter_True)
  then have "?f (p @ trim ?P z @ q) = p @ ?f (trim ?P z) @ q" by simp
  with z have "?f z = p @ ?f (trim ?P z) @ q" by simp
  then have e: "trim ?P (?f z) = trim ?P (?f (trim ?P z))"
    using trim_padded[OF p q, of "?f (trim ?P z)"] by simp
  have m: "trim ?P (map latin_base s) = map latin_base (trim ?P s)" for s
    by (rule trim_map) (rule latin_space_base)
  show ?thesis by (simp only: drop_marks_latin_all m e)
qed

lemma mark_laws_latin: "mark_laws latin"
proof -
  have 1: "drop_marks latin (str_lower latin x) = drop_marks latin (str_lower latin y)"
    if "drop_marks latin x = drop_marks latin y" for x y
    using that by (simp only: drop_marks_lower)
  have 2: "strip latin (drop_marks latin (strip latin z)) = strip latin (drop_marks latin z)" for z
    by (simp only: strip_trim isspace_latin trim_drop_marks)
  have 3: "isspace latin 0x20" "\<not> isword latin 0x20" by code_simp+
  from 1 2 3 show ?thesis unfolding mark_laws_def by blast
qed

section \<open>Accents and the intent\<close>

lemma intent_of_trim_norm:
  assumes "isspace U 0x20" and "\<not> isword U 0x20"
  shows "intent_of U (norm U x) = intent_of U (trim (isspace U) (norm U x))"
proof -
  let ?P = "isspace U"
  have "c = 0x20" if "c \<in> set (norm U x)" "?P c" for c
    using that squeeze_set[of c ?P False] by (auto simp: norm_squeeze)
  from padded_by_trim[of "norm U x" ?P, OF this]
  obtain n k where "norm U x = replicate n 0x20 @ trim ?P (norm U x) @ replicate k 0x20"
    by blast
  then have "intent_of U (norm U x) =
      intent_of U (replicate n 0x20 @ trim ?P (norm U x) @ replicate k 0x20)"
    by simp
  also have "\<dots> = intent_of U (trim ?P (norm U x))"
    using assms(2) by (rule intent_of_padded)
  finally show ?thesis .
qed

lemma trim_norm_eq:
  assumes r: "mark_laws U" and e: "drop_marks U x = drop_marks U y"
  shows "trim (isspace U) (norm U x) = trim (isspace U) (norm U y)"
proof -
  let ?P = "isspace U"
  let ?A = "\<lambda>x. drop_marks U (strip U (str_lower U x))"
  from r have l: "drop_marks U (str_lower U x) = drop_marks U (str_lower U y)"
    and s: "\<And>z. trim ?P (drop_marks U (strip U z)) = trim ?P (drop_marks U z)"
    and sp: "?P 0x20"
    using e unfolding mark_laws_def strip_trim[symmetric] by blast+
  have "trim ?P (?A x) = trim ?P (?A y)" by (simp only: s l)
  then have "trim ?P (squeeze ?P False (?A x)) = trim ?P (squeeze ?P False (?A y))"
    using trim_squeeze_trim[of ?P "?A x", OF sp] trim_squeeze_trim[of ?P "?A y", OF sp] by simp
  then show ?thesis by (simp only: norm_squeeze)
qed

section \<open>Whole words\<close>

text \<open>
  The occurrences of \<open>w\<close> in \<open>t\<close> are found by trying every prefix of \<open>t\<close> as the text
  before \<open>w\<close>: this is how \<open>standalone\<close> is evaluated.
\<close>

lemma standalone_code [code]:
  "standalone U w t =
     list_ex (\<lambda>pre. (pre = [] \<or> \<not> isword U (last pre)) \<and>
                     prefix w (drop (length pre) t) \<and>
                     (let post = drop (length pre + length w) t
                      in post = [] \<or> \<not> isword U (hd post)))
       (prefixes t)"
  (is "?l = ?r")
proof
  assume ?l
  then obtain pre post where t: "t = pre @ w @ post"
    and a: "pre = [] \<or> \<not> isword U (last pre)" and b: "post = [] \<or> \<not> isword U (hd post)"
    unfolding standalone_def by blast
  have "pre \<in> set (prefixes t)" by (simp add: t in_set_prefixes)
  moreover have "prefix w (drop (length pre) t)" by (simp add: t)
  moreover have "drop (length pre + length w) t = post" by (simp add: t)
  ultimately show ?r using a b unfolding list_ex_iff Let_def by blast
next
  assume ?r
  then obtain pre where m: "pre \<in> set (prefixes t)"
    and c: "(pre = [] \<or> \<not> isword U (last pre)) \<and> prefix w (drop (length pre) t) \<and>
            (drop (length pre + length w) t = [] \<or>
             \<not> isword U (hd (drop (length pre + length w) t)))"
    unfolding list_ex_iff Let_def by (rule bexE)
  from m have p: "prefix pre t" by (simp only: in_set_prefixes)
  from c have a: "pre = [] \<or> \<not> isword U (last pre)"
    and w: "prefix w (drop (length pre) t)"
    and b: "drop (length pre + length w) t = [] \<or>
            \<not> isword U (hd (drop (length pre + length w) t))"
    by blast+
  from p obtain r where r: "t = pre @ r" by (auto simp: prefix_def)
  with w obtain post where "r = w @ post" by (auto simp: prefix_def)
  with r have t: "t = pre @ w @ post" by simp
  then have d: "drop (length pre + length w) t = post" by simp
  from b have b': "post = [] \<or> \<not> isword U (hd post)" by (simp only: d)
  show ?l unfolding standalone_def
    by (rule exI[of _ pre], rule exI[of _ post]) (rule conjI[OF t conjI[OF a b']])
qed

lemma ms_word:
  "ms U (word w) (b, t, g) =
     (if prefix (u w) t
      then [(if w = [] then b else isword U (last (u w)), drop (length w) t, g)] else [])"
proof (induction w arbitrary: b t)
  case Nil
  then show ?case by (simp add: word_def u_def)
next
  case (Cons c w)
  have w: "word (c # w) = Seq (Lit (of_char c)) (word w)" by (simp add: word_def)
  show ?case
  proof (cases t)
    case Nil
    then show ?thesis by (simp add: w u_def)
  next
    case (Cons x xs)
    show ?thesis
    proof (cases "x = of_char c")
      case True
      with Cons show ?thesis using Cons.IH[of "isword U x" xs]
        by (simp add: w u_def)
    next
      case False
      with Cons show ?thesis by (simp add: w u_def)
    qed
  qed
qed

lemma ms_phrase:
  assumes "w \<noteq> []" and "list_all (isword U) (u w)"
  shows "ms U (phrase w) (b, t, g) \<noteq> [] \<longleftrightarrow>
           \<not> b \<and> (\<exists>post. t = u w @ post \<and> (post = [] \<or> \<not> isword U (hd post)))"
proof -
  from assms(1) have n: "u w \<noteq> []" by (simp add: u_def)
  then have "last (u w) \<in> set (u w)" "hd (u w) \<in> set (u w)" by simp_all
  with assms(2) have l: "isword U (last (u w))" and h: "isword U (hd (u w))"
    unfolding list_all_iff by blast+
  have ph: "phrase w = Seq Bnd (Seq (word w) Bnd)" by (simp add: phrase_def)
  show ?thesis
  proof (cases "prefix (u w) t")
    case False
    then show ?thesis by (auto simp: ph ms_word prefix_def)
  next
    case True
    then obtain post where t: "t = u w @ post" by (auto simp: prefix_def)
    with n have ht: "t \<noteq> []" "hd t = hd (u w)" by auto
    then have b1: "at_boundary U (b, t, g) = (\<not> b)"
      using h by (cases t) (auto simp: at_boundary_def)
    have len: "length w = length (u w)" by (simp add: u_def)
    have b2: "at_boundary U (True, post, g) = (post = [] \<or> \<not> isword U (hd post))"
      by (cases post) (auto simp: at_boundary_def)
    show ?thesis using True assms(1) l b1 b2
      by (auto simp: ph ms_word t len)
  qed
qed

lemma search_from_iff:
  "search_from U r b t \<noteq> None \<longleftrightarrow>
     (\<exists>pre post. t = pre @ post \<and>
        ms U r (if pre = [] then b else isword U (last pre), post, []) \<noteq> [])"
proof (induction t arbitrary: b)
  case Nil
  then show ?case by (auto split: list.splits)
next
  case (Cons x xs)
  show ?case
  proof (cases "ms U r (b, x # xs, [])")
    case (Cons m l)
    then have "ms U r (if [] = ([]::ustr) then b else isword U (last []), x # xs, []) \<noteq> []"
      by simp
    then have "\<exists>pre post. x # xs = pre @ post \<and>
        ms U r (if pre = [] then b else isword U (last pre), post, []) \<noteq> []"
      by (intro exI[of _ "[]"] exI[of _ "x # xs"]) simp
    with Cons show ?thesis by simp
  next
    case Nil
    have "(\<exists>pre post. x # xs = pre @ post \<and>
            ms U r (if pre = [] then b else isword U (last pre), post, []) \<noteq> []) \<longleftrightarrow>
          (\<exists>pre post. xs = pre @ post \<and>
            ms U r (if pre = [] then isword U x else isword U (last pre), post, []) \<noteq> [])"
      (is "?L \<longleftrightarrow> ?R")
    proof
      assume ?L
      then obtain pre post where p: "x # xs = pre @ post"
        and m: "ms U r (if pre = [] then b else isword U (last pre), post, []) \<noteq> []" by blast
      from m Nil p have "pre \<noteq> []" by (cases pre) auto
      with p obtain pre' where pre: "pre = x # pre'" and xs: "xs = pre' @ post"
        by (cases pre) auto
      from m pre have "ms U r (if pre' = [] then isword U x else isword U (last pre'), post, []) \<noteq> []"
        by (cases "pre' = []") simp_all
      with xs show ?R by blast
    next
      assume ?R
      then obtain pre post where xs: "xs = pre @ post"
        and m: "ms U r (if pre = [] then isword U x else isword U (last pre), post, []) \<noteq> []"
        by blast
      from m have "ms U r (if x # pre = [] then b else isword U (last (x # pre)), post, []) \<noteq> []"
        by (cases "pre = []") simp_all
      moreover from xs have "x # xs = (x # pre) @ post" by simp
      ultimately show ?L by blast
    qed
    with Nil Cons.IH[of "isword U x"] show ?thesis by simp
  qed
qed

lemma found_phrase_iff:
  assumes "w \<noteq> []" and "list_all (isword U) (u w)"
  shows "found U (phrase w) t = standalone U (u w) t"
proof -
  have e: "ms U (phrase w) (if pre = [] then False else isword U (last pre), post, []) \<noteq> [] \<longleftrightarrow>
      (pre = [] \<or> \<not> isword U (last pre)) \<and>
      (\<exists>post'. post = u w @ post' \<and> (post' = [] \<or> \<not> isword U (hd post')))" for pre post
    by (cases "pre = []") (simp_all add: ms_phrase[OF assms])
  have "found U (phrase w) t \<longleftrightarrow> search_from U (phrase w) False t \<noteq> None"
    by (simp add: found_def re_search_def split: option.splits)
  also have "\<dots> \<longleftrightarrow> (\<exists>pre post. t = pre @ post \<and>
        ms U (phrase w) (if pre = [] then False else isword U (last pre), post, []) \<noteq> [])"
    by (rule search_from_iff)
  also have "\<dots> \<longleftrightarrow> (\<exists>pre post. t = pre @ post \<and> (pre = [] \<or> \<not> isword U (last pre)) \<and>
        (\<exists>post'. post = u w @ post' \<and> (post' = [] \<or> \<not> isword U (hd post'))))"
    by (simp only: e)
  also have "\<dots> \<longleftrightarrow> standalone U (u w) t"
    unfolding standalone_def by blast
  finally show ?thesis .
qed

lemma at_boundary_capture: "at_boundary U (capture n s st) = at_boundary U st"
  by (cases st) (simp add: at_boundary_def capture_def)

lemma ms_lit_word:
  "ms U (Seq (Lit c) (word w)) (b, t, g) =
     (if prefix (c # u w) t
      then [(isword U (last (c # u w)), drop (Suc (length w)) t, g)] else [])"
  by (cases t) (auto simp: ms_word u_def)

lemma at_boundary_start:
  "t = w @ post \<Longrightarrow> w \<noteq> [] \<Longrightarrow> isword U (hd w) \<Longrightarrow> at_boundary U (b, t, g) = (\<not> b)"
  by (cases w) (auto simp: at_boundary_def)

lemma at_boundary_end:
  "at_boundary U (True, post, g) = (post = [] \<or> \<not> isword U (hd post))"
  by (cases post) (auto simp: at_boundary_def)

lemma length_u [simp]: "length (u w) = length w"
  by (simp add: u_def)

lemma bex_capture:
  "(\<exists>x \<in> capture n s ` A. at_boundary U x) = (\<exists>x \<in> A. at_boundary U x)"
  by (auto simp: at_boundary_capture)

lemma word_end:
  assumes "w \<noteq> []" and "isword U (last (u w))"
  shows "(\<exists>st \<in> set (ms U (word w) (b, t, g)). at_boundary U st) \<longleftrightarrow>
           (\<exists>post. t = u w @ post \<and> (post = [] \<or> \<not> isword U (hd post)))"
proof -
  show ?thesis using assms
    by (auto simp: ms_word prefix_def at_boundary_end)
qed

lemma lit_word_end:
  assumes "isword U (last (c # u w))"
  shows "(\<exists>st \<in> set (ms U (Seq (Lit c) (word w)) (b, t, g)). at_boundary U st) \<longleftrightarrow>
           (\<exists>post. t = (c # u w) @ post \<and> (post = [] \<or> \<not> isword U (hd post)))"
proof -
  show ?thesis using assms
    by (auto simp: ms_lit_word prefix_def at_boundary_end simp del: ms.simps(8))
qed

lemma ms_orders:
  assumes "list_all (isword U) (concat ORDER_NOUNS)"
  shows "ms U (seqs [Bnd, orders_grp 1, Bnd]) (b, t, []) \<noteq> [] \<longleftrightarrow>
           \<not> b \<and> list_ex (\<lambda>w. \<exists>post. t = w @ post \<and> (post = [] \<or> \<not> isword U (hd post)))
                   ORDER_NOUNS"
proof -
  let ?w1 = "u ''ordenes''" and ?w2 = "0xF3 # u ''rdenes''" and ?w3 = "u ''ots''"
  let ?E = "\<lambda>w. \<exists>post. t = w @ post \<and> (post = [] \<or> \<not> isword U (hd post))"
  have wd: "isword U (hd ?w1)" "isword U (hd ?w2)" "isword U (hd ?w3)"
    "isword U (last ?w1)" "isword U (last ?w2)" "isword U (last ?w3)"
    using assms by (simp_all add: ORDER_NOUNS_def u_def)
  have st: "\<not> b" if "at_boundary U (b, t, [])" "t = w @ post" "w \<noteq> []" "isword U (hd w)" for w post
    using that at_boundary_start[of t w post U b "[]"] by simp
  have bs: "at_boundary U (b, t, [])" if "\<not> b" "t = w @ post" "w \<noteq> []" "isword U (hd w)" for w post
    using that at_boundary_start[of t w post U b "[]"] by simp
  have ne: "?w1 \<noteq> []" "?w2 \<noteq> []" "?w3 \<noteq> []" by (simp_all add: u_def)
  have "(\<exists>st \<in> set (ms U (orders_grp 1) (b, t, [])). at_boundary U st) \<longleftrightarrow>
        (\<exists>st \<in> set (ms U (word ''ordenes'') (b, t, [])). at_boundary U st) \<or>
        (\<exists>st \<in> set (ms U (Seq (Lit 0xF3) (word ''rdenes'')) (b, t, [])). at_boundary U st) \<or>
        (\<exists>st \<in> set (ms U (word ''ots'') (b, t, [])). at_boundary U st)"
    by (simp add: orders_grp_def at_boundary_capture bex_Un image_Un del: ms.simps(8))
  also have "\<dots> \<longleftrightarrow> ?E ?w1 \<or> ?E ?w2 \<or> ?E ?w3"
  proof -
    have 1: "(\<exists>st \<in> set (ms U (word ''ordenes'') (b, t, [])). at_boundary U st) \<longleftrightarrow> ?E ?w1"
      by (rule word_end[OF _ wd(4)]) simp
    have 3: "(\<exists>st \<in> set (ms U (word ''ots'') (b, t, [])). at_boundary U st) \<longleftrightarrow> ?E ?w3"
      by (rule word_end[OF _ wd(6)]) simp
    show ?thesis by (simp only: 1 3 lit_word_end[OF wd(5)])
  qed
  finally have g: "(\<exists>st \<in> set (ms U (orders_grp 1) (b, t, [])). at_boundary U st) \<longleftrightarrow>
        ?E ?w1 \<or> ?E ?w2 \<or> ?E ?w3" .
  have "ms U (seqs [Bnd, orders_grp 1, Bnd]) (b, t, []) \<noteq> [] \<longleftrightarrow>
        at_boundary U (b, t, []) \<and>
        (\<exists>st \<in> set (ms U (orders_grp 1) (b, t, [])). at_boundary U st)"
    by auto
  also have "\<dots> \<longleftrightarrow> at_boundary U (b, t, []) \<and> (?E ?w1 \<or> ?E ?w2 \<or> ?E ?w3)"
    by (simp only: g)
  also have "\<dots> \<longleftrightarrow> \<not> b \<and> (?E ?w1 \<or> ?E ?w2 \<or> ?E ?w3)"
    using st[OF _ _ ne(1) wd(1)] st[OF _ _ ne(2) wd(2)] st[OF _ _ ne(3) wd(3)]
      bs[OF _ _ ne(1) wd(1)] bs[OF _ _ ne(2) wd(2)] bs[OF _ _ ne(3) wd(3)]
    by blast
  finally show ?thesis by (simp add: ORDER_NOUNS_def)
qed

lemma has_orders_iff:
  assumes "list_all (isword U) (concat ORDER_NOUNS)"
  shows "has_orders U t = list_ex (\<lambda>w. standalone U w t) ORDER_NOUNS"
proof -
  let ?r = "seqs [Bnd, orders_grp 1, Bnd]"
  have e: "ms U ?r (if pre = [] then False else isword U (last pre), post, []) \<noteq> [] \<longleftrightarrow>
      (pre = [] \<or> \<not> isword U (last pre)) \<and>
      list_ex (\<lambda>w. \<exists>post'. post = w @ post' \<and> (post' = [] \<or> \<not> isword U (hd post'))) ORDER_NOUNS"
    for pre post
    by (cases "pre = []") (simp_all only: ms_orders[OF assms] if_True if_False simp_thms)
  have "has_orders U t \<longleftrightarrow> search_from U ?r False t \<noteq> None"
    by (simp add: has_orders_def found_def re_search_def split: option.splits)
  also have "\<dots> \<longleftrightarrow> (\<exists>pre post. t = pre @ post \<and>
        ms U ?r (if pre = [] then False else isword U (last pre), post, []) \<noteq> [])"
    by (rule search_from_iff)
  also have "\<dots> \<longleftrightarrow> (\<exists>pre post. t = pre @ post \<and> (pre = [] \<or> \<not> isword U (last pre)) \<and>
      list_ex (\<lambda>w. \<exists>post'. post = w @ post' \<and> (post' = [] \<or> \<not> isword U (hd post'))) ORDER_NOUNS)"
    by (simp only: e)
  also have "\<dots> \<longleftrightarrow> list_ex (\<lambda>w. standalone U w t) ORDER_NOUNS"
    unfolding standalone_def list_ex_iff by blast
  finally show ?thesis .
qed

lemma letters_words:
  assumes "list_all (isword U) LETTERS"
  shows "list_all (isword U) (concat ORDER_NOUNS)"
    and "list_all (\<lambda>tech. tech \<noteq> [] \<and> list_all (isword U) (u tech)) TECHS"
    and "list_all (isword U) (u ''pm'')" and "list_all (isword U) (u ''cm'')"
  using assms by (simp_all add: LETTERS_def ORDER_NOUNS_def TECHS_def u_def)

lemma letters_latin: "list_all (isword latin) LETTERS"
  by code_simp

lemma find_roster_word:
  assumes "list_all (isword U) LETTERS"
  shows "find (\<lambda>tech. found U (phrase tech) t) TECHS =
         find (\<lambda>tech. standalone U (u tech) t) TECHS"
  by (rule find_cong[OF refl])
    (use letters_words(2)[OF assms] in \<open>auto simp: list_all_iff found_phrase_iff\<close>)

section \<open>A month name and its year\<close>

lemma month_names_words:
  assumes "list_all (isword U) LETTERS"
  shows "list_all (\<lambda>p. fst p \<noteq> [] \<and> list_all (isword U) (u (fst p))) MONTHS"
  using assms by (simp add: LETTERS_def MONTHS_def u_def)

lemma ms_month_pattern_iff:
  assumes "w \<noteq> []" and "list_all (isword U) (u w)"
  shows "ms U (month_pattern w) (b, t, g) \<noteq> [] \<longleftrightarrow>
           \<not> b \<and> (\<exists>post. t = u w @ post \<and> (post = [] \<or> \<not> isword U (hd post)))"
proof -
  have "ms U (month_pattern w) (b, t, g) \<noteq> [] \<longleftrightarrow> ms U (phrase w) (b, t, g) \<noteq> []"
    by (auto simp: month_pattern_def phrase_def opt_def ms_word)
  then show ?thesis by (simp only: ms_phrase[OF assms])
qed

lemma found_month_iff:
  assumes "w \<noteq> []" and "list_all (isword U) (u w)"
  shows "found U (month_pattern w) t = standalone U (u w) t"
proof -
  have e: "ms U (month_pattern w) (if pre = [] then False else isword U (last pre), post, []) \<noteq> [] \<longleftrightarrow>
      (pre = [] \<or> \<not> isword U (last pre)) \<and>
      (\<exists>post'. post = u w @ post' \<and> (post' = [] \<or> \<not> isword U (hd post')))" for pre post
    by (cases "pre = []") (simp_all add: ms_month_pattern_iff[OF assms])
  have "found U (month_pattern w) t \<longleftrightarrow> search_from U (month_pattern w) False t \<noteq> None"
    by (simp add: found_def re_search_def split: option.splits)
  also have "\<dots> \<longleftrightarrow> (\<exists>pre post. t = pre @ post \<and>
        ms U (month_pattern w) (if pre = [] then False else isword U (last pre), post, []) \<noteq> [])"
    by (rule search_from_iff)
  also have "\<dots> \<longleftrightarrow> (\<exists>pre post. t = pre @ post \<and> (pre = [] \<or> \<not> isword U (last pre)) \<and>
        (\<exists>post'. post = u w @ post' \<and> (post' = [] \<or> \<not> isword U (hd post'))))"
    by (simp only: e)
  also have "\<dots> \<longleftrightarrow> standalone U (u w) t"
    unfolding standalone_def by blast
  finally show ?thesis .
qed

lemma search_from_skip:
  assumes "\<And>p1 p2. pre = p1 @ p2 \<Longrightarrow> p2 \<noteq> [] \<Longrightarrow>
             ms U r (if p1 = [] then b else isword U (last p1), p2 @ s, []) = []"
  shows "search_from U r b (pre @ s) =
           search_from U r (if pre = [] then b else isword U (last pre)) s"
  using assms
proof (induction pre arbitrary: b)
  case Nil
  then show ?case by simp
next
  case (Cons x pre)
  from Cons.prems[of "[]" "x # pre"] have n: "ms U r (b, x # pre @ s, []) = []" by simp
  have "search_from U r (isword U x) (pre @ s) =
          search_from U r (if pre = [] then isword U x else isword U (last pre)) s"
  proof (rule Cons.IH)
    fix p1 p2 assume p: "pre = p1 @ p2" "p2 \<noteq> []"
    then have "x # pre = (x # p1) @ p2" by simp
    from Cons.prems[OF this p(2)]
    show "ms U r (if p1 = [] then isword U x else isword U (last p1), p2 @ s, []) = []"
      by (cases "p1 = []") simp_all
  qed
  with n show ?case by simp
qed

lemma ascii_digit:
  assumes "ascii_classes U" and "0 \<le> k" and "k \<le> 9"
  shows "decimal U (0x30 + k) = Some k" and "isdigit U (0x30 + k)" and "\<not> isspace U (0x30 + k)"
  using assms by (auto simp: ascii_classes_def list_all_iff isdigit_def)

lemma ms_month_year:
  assumes c: "ascii_classes U" and w: "w \<noteq> []" "list_all (isword U) (u w)"
    and d: "list_all (\<lambda>k. 0 \<le> k \<and> k \<le> 9) [a, b, c', d']"
  shows "\<exists>l. ms U (month_pattern w)
            (False, u w @ [0x20] @ [0x30 + a, 0x30 + b, 0x30 + c', 0x30 + d'] @ post, []) =
          (isword U (0x30 + d'), post, [(1, [0x30 + a, 0x30 + b, 0x30 + c', 0x30 + d'])]) # l"
proof -
  from c have sp: "isspace U 0x20" "\<not> isword U 0x20"
    by (simp_all add: ascii_classes_def)
  from d have r: "0 \<le> a" "a \<le> 9" "0 \<le> b" "b \<le> 9" "0 \<le> c'" "c' \<le> 9" "0 \<le> d'" "d' \<le> 9"
    by simp_all
  note dg = ascii_digit(2,3)[OF c r(1,2)] ascii_digit(2)[OF c r(3,4)] ascii_digit(2)[OF c r(5,6)]
    ascii_digit(2)[OF c r(7,8)]
  from w have n: "u w \<noteq> []" by (simp add: u_def)
  then have "last (u w) \<in> set (u w)" "hd (u w) \<in> set (u w)" by simp_all
  with w(2) have lw: "isword U (last (u w))" and hw: "isword U (hd (u w))"
    unfolding list_all_iff by blast+
  let ?ds = "[0x30 + a, 0x30 + b, 0x30 + c', 0x30 + d']"
  have b1: "at_boundary U (False, u w @ [0x20] @ ?ds @ post, [])"
    using at_boundary_start[OF refl n hw, of False "[0x20] @ ?ds @ post" "[]"] by simp
  have b2: "at_boundary U (True, [0x20] @ ?ds @ post, [])"
    using sp by (simp add: at_boundary_end)
  show ?thesis
    using w(1) sp dg lw b1 b2
    by (simp add: month_pattern_def opt_def plus_def ms_word capture_def eval_nat_numeral)
qed


lemma no_month_before:
  assumes w: "w \<noteq> []" "list_all (isword U) (u w)"
    and p: "pre = [] \<or> \<not> isword U (last pre)" and ns: "\<not> standalone U (u w) pre"
    and s: "prefix (u w) s" and e: "pre = p1 @ p2" "p2 \<noteq> []"
  shows "ms U (month_pattern w) (if p1 = [] then False else isword U (last p1), p2 @ s, []) = []"
proof (rule ccontr)
  assume "ms U (month_pattern w) (if p1 = [] then False else isword U (last p1), p2 @ s, []) \<noteq> []"
  then have f: "p1 = [] \<or> \<not> isword U (last p1)"
    and "\<exists>post. p2 @ s = u w @ post \<and> (post = [] \<or> \<not> isword U (hd post))"
    by (simp_all add: ms_month_pattern_iff[OF w] split: if_splits)
  then obtain post where eq: "p2 @ s = u w @ post" and b: "post = [] \<or> \<not> isword U (hd post)"
    by blast
  from w have n: "u w \<noteq> []" by (simp add: u_def)
  from n w(2) have hw: "isword U (hd (u w))" by (cases "u w") simp_all
  from s obtain r where r: "s = u w @ r" by (auto simp: prefix_def)
  from eq obtain us where "(p2 = u w @ us \<and> us @ s = post) \<or> (p2 @ us = u w \<and> s = us @ post)"
    unfolding append_eq_append_conv2 by blast
  then show False
  proof
    assume a: "p2 = u w @ us \<and> us @ s = post"
    show False
    proof (cases "us = []")
      case True
      with a r n hw b show False by auto
    next
      case False
      with a b have "\<not> isword U (hd us)" by auto
      with a e(1) f False have "standalone U (u w) pre"
        unfolding standalone_def by (intro exI[of _ p1] exI[of _ us]) simp
      with ns show False by contradiction
    qed
  next
    assume a: "p2 @ us = u w \<and> s = us @ post"
    with e(2) have "last p2 \<in> set (u w)"
      by (metis Un_iff last_in_set set_append)
    with w(2) have "isword U (last p2)" unfolding list_all_iff by blast
    moreover from e have "last pre = last p2" "pre \<noteq> []" by simp_all
    ultimately show False using p by simp
  qed
qed

lemma re_search_month_year:
  assumes c: "ascii_classes U" and w: "w \<noteq> []" "list_all (isword U) (u w)"
    and d: "list_all (\<lambda>k. 0 \<le> k \<and> k \<le> 9) [a, b, c', d']"
    and p: "pre = [] \<or> \<not> isword U (last pre)" and ns: "\<not> standalone U (u w) pre"
  shows "re_search U (month_pattern w)
           (pre @ u w @ [0x20] @ [0x30 + a, 0x30 + b, 0x30 + c', 0x30 + d'] @ post) =
         Some (isword U (0x30 + d'), post, [(1, [0x30 + a, 0x30 + b, 0x30 + c', 0x30 + d'])])"
proof -
  let ?ds = "[0x30 + a, 0x30 + b, 0x30 + c', 0x30 + d']"
  let ?s = "u w @ [0x20] @ ?ds @ post"
  let ?r = "month_pattern w"
  have "search_from U ?r False (pre @ ?s) =
          search_from U ?r (if pre = [] then False else isword U (last pre)) ?s"
    by (rule search_from_skip) (rule no_month_before[OF w p ns], simp_all)
  also from p have "\<dots> = search_from U ?r False ?s" by auto
  also have "\<dots> = Some (isword U (0x30 + d'), post, [(1, ?ds)])"
  proof -
    from ms_month_year[OF c w d, of post] obtain l where
      m: "ms U ?r (False, ?s, []) = (isword U (0x30 + d'), post, [(1, ?ds)]) # l" by blast
    from w(1) obtain x xs where "?s = x # xs" by (cases "?s") (simp_all add: u_def)
    with m show ?thesis by simp
  qed
  finally show ?thesis by (simp add: re_search_def)
qed

lemma py_int_digits:
  assumes c: "ascii_classes U" and d: "list_all (\<lambda>k. 0 \<le> k \<and> k \<le> 9) [a, b, c', d']"
  shows "py_int U [0x30 + a, 0x30 + b, 0x30 + c', 0x30 + d'] =
           Inr (1000 * a + 100 * b + 10 * c' + d')"
proof -
  from d have r: "0 \<le> a" "a \<le> 9" "0 \<le> b" "b \<le> 9" "0 \<le> c'" "c' \<le> 9" "0 \<le> d'" "d' \<le> 9"
    by simp_all
  note dg = ascii_digit(1)[OF c r(1,2)] ascii_digit(1)[OF c r(3,4)] ascii_digit(1)[OF c r(5,6)]
    ascii_digit(1)[OF c r(7,8)]
  show ?thesis by (simp add: py_int_def dg)
qed

lemma digit_step:
  fixes q d :: int
  assumes "0 \<le> d" and "d \<le> 9"
  shows "(10 * q + d) div 10 = q" and "(10 * q + d) mod 10 = d"
  using assms by presburger+

lemma zpad_step:
  assumes "0 \<le> d" and "d \<le> 9"
  shows "zpad (Suc w) (10 * q + d) = zpad w q @ [0x30 + d]"
  using assms by simp

lemma zpad_digits:
  assumes d: "list_all (\<lambda>k. 0 \<le> k \<and> k \<le> 9) [a, b, c', d']"
  shows "zpad 4 (1000 * a + 100 * b + 10 * c' + d') =
           [0x30 + a, 0x30 + b, 0x30 + c', 0x30 + d']"
proof -
  from d have r: "0 \<le> a" "a \<le> 9" "0 \<le> b" "b \<le> 9" "0 \<le> c'" "c' \<le> 9" "0 \<le> d'" "d' \<le> 9"
    by simp_all
  define q2 where "q2 = 10 * a + b"
  define q3 where "q3 = 10 * q2 + c'"
  have "1000 * a + 100 * b + 10 * c' + d' = 10 * q3 + d'" by (simp add: q3_def q2_def)
  moreover have n: "(4::nat) = Suc 3" "(3::nat) = Suc 2" "(2::nat) = Suc 1" by simp_all
  ultimately have "zpad 4 (1000 * a + 100 * b + 10 * c' + d') = zpad (Suc 3) (10 * q3 + d')"
    by (simp only:)
  also have "\<dots> = zpad 3 q3 @ [0x30 + d']" using r(7,8) by (rule zpad_step)
  also have "zpad 3 q3 = zpad (Suc 2) (10 * q2 + c')" by (simp only: q3_def n(2))
  also have "\<dots> = zpad 2 q2 @ [0x30 + c']" using r(5,6) by (rule zpad_step)
  also have "zpad 2 q2 = zpad (Suc 1) (10 * a + b)" by (simp only: q2_def n(3))
  also have "\<dots> = zpad 1 a @ [0x30 + b]" using r(3,4) by (rule zpad_step)
  also have "zpad 1 a = [0x30 + a]" using zpad_step[OF r(1,2), of 0 0] by simp
  finally show ?thesis by simp
qed

lemma zpad_two_digits: "0 \<le> n \<Longrightarrow> n < 100 \<Longrightarrow> zpad 2 n = two_digits n"
  by (simp add: eval_nat_numeral two_digits_def)

lemma days_in_month_gregorian: "days_in_month y m = gregorian_last_day y m"
proof -
  have k: "y mod 4 = 0" if "y mod 400 = 0"
  proof -
    from that have "400 dvd y" by (simp add: dvd_eq_mod_eq_0)
    then have "4 dvd y" using dvd_trans[of 4 400 y] by simp
    then show ?thesis by (simp add: dvd_eq_mod_eq_0)
  qed
  then have "is_leap y = (y mod 4 = 0 \<and> y mod 100 \<noteq> 0 \<or> y mod 400 = 0)"
    unfolding is_leap_def by auto
  then show ?thesis
    by (simp add: days_in_month_def gregorian_last_day_def)
qed

section \<open>The claims\<close>

text \<open>
  C1. Totality of the core: for every input, \<^verbatim>\<open>extract_slots\<close> and its date resolution
  return a value and never raise, in particular for a month name followed by any
  four-digit year such as 0000 or 9999. The code does raise: \<^verbatim>\<open>date(0, 1, 1)\<close> is a
  \<^verbatim>\<open>ValueError\<close> (the years of a date are 1 to 9999), and so is the
  \<^verbatim>\<open>date(10000, 1, 1)\<close> that the December branch builds for the year 9999; nothing
  in \<^verbatim>\<open>extract_slots\<close> or its caller catches it.
\<close>

theorem named_month_year_out_of_range_raises:
  "extract_slots latin now (u ''enero 0000'') ks ka = Inl ValueError \<and>
   extract_slots latin now (u ''diciembre 9999'') ks ka = Inl ValueError"
  by code_simp

text \<open>
  C2. If the slots have both \<^verbatim>\<open>date_from\<close> and \<^verbatim>\<open>date_to\<close>, then
  \<^verbatim>\<open>date_from <= date_to\<close>, for every rule of the date cascade. It fails for the rule
  \<^verbatim>\<open>desde ... hasta ...\<close>, which returns the two dates as they are written:
\<close>

theorem explicit_range_unordered:
  "extract_slots latin ref_date (u ''desde 2025-12-31 hasta 2025-01-01'') [] [] =
     Inr \<lparr>site = None, area = None, type = None, status = None,
          date_from = Some (u ''2025-12-31''), date_to = Some (u ''2025-01-01''),
          technician = None\<rparr> \<and>
   \<not> u ''2025-12-31'' \<le> u ''2025-01-01''"
  by code_simp

text \<open>
  C2, as the code has it: when both dates are set, either one of the rules that
  compute the range applies and \<^verbatim>\<open>date_from <= date_to\<close> (as strings, which for ISO
  dates is the order of the dates), or none does and the two dates are those written
  in a \<^verbatim>\<open>desde ... hasta ...\<close>.
\<close>

theorem dates_ordered_unless_explicit:
  assumes "extract_slots U now text ks ka = Inr s" and "valid_date now"
    and "date_from s = Some a" and "date_to s = Some b"
  shows "if computed_range U (norm U text) then a \<le> b
         else explicit_range U (norm U text) a b"
proof -
  from extract_slots_fields(4)[OF assms(1)] assms(3,4)
  have "apply_date_pattern U now (norm U text) = Inr (Some a, Some b)" by simp
  then show ?thesis using assms(2) by (rule apply_date_pattern_order)
qed

theorem dates_ordered_witness:
  "extract_slots latin ref_date (u ''semana pasada'') [] [] =
     Inr \<lparr>site = None, area = None, type = None, status = None,
          date_from = Some (u ''2025-03-03''), date_to = Some (u ''2025-03-09''),
          technician = None\<rparr> \<and>
   valid_date ref_date \<and>
   computed_range latin (norm latin (u ''semana pasada'')) \<and>
   u ''2025-03-03'' \<le> u ''2025-03-09''"
proof -
  let ?s = "\<lparr>site = None, area = None, type = None, status = None,
          date_from = Some (u ''2025-03-03''), date_to = Some (u ''2025-03-09''),
          technician = None\<rparr>"
  have e: "extract_slots latin ref_date (u ''semana pasada'') [] [] = Inr ?s"
    by code_simp
  have v: "valid_date ref_date" by code_simp
  have c: "computed_range latin (norm latin (u ''semana pasada''))" by code_simp
  have "date_from ?s = Some (u ''2025-03-03'')" and "date_to ?s = Some (u ''2025-03-09'')"
    by simp_all
  note th = dates_ordered_unless_explicit[OF e v this]
  have le: "u ''2025-03-03'' \<le> u ''2025-03-09''"
    by (rule th[unfolded if_P[OF c]])
  show ?thesis by (rule conjI[OF e conjI[OF v conjI[OF c le]]])
qed

text \<open>
  C3. When the normalised text has an order noun (\<^verbatim>\<open>ordenes\<close>, \<^verbatim>\<open>\<acute>ordenes\<close> or
  \<^verbatim>\<open>ots\<close>) as a whole word, no greeting phrase, and mentions no technician of the
  roster, \<^verbatim>\<open>detect_intent\<close> returns \<^verbatim>\<open>STATUS_COUNTS\<close>, whatever pattern of the table
  would match. The code tests the mention of a technician with \<^verbatim>\<open>tech in t\<close>, a
  substring, where its comment says \<^verbatim>\<open>SIN mencionar un t\<acute>ecnico\<close> and
  \<^verbatim>\<open>extract_slots\<close> looks for the name between two \<^verbatim>\<open>\b\<close>: a text in which a
  name of the roster is part of a longer word (\<^verbatim>\<open>jose\<close> in \<^verbatim>\<open>josefina\<close>) mentions no
  technician, and the override does not fire.
\<close>

theorem orders_override_missed_inside_word:
  "\<not> is_greeting latin (u ''cuantas ordenes tiene josefina'') \<and>
   list_ex (\<lambda>w. standalone latin w (norm latin (u ''cuantas ordenes tiene josefina'')))
     ORDER_NOUNS \<and>
   list_all (\<lambda>tech. \<not> standalone latin (u tech) (norm latin (u ''cuantas ordenes tiene josefina'')))
     TECHS \<and>
   detect_intent latin (u ''cuantas ordenes tiene josefina'') = TECH_BY_PERSON \<and>
   \<not> is_greeting latin (u ''ordenes de josefina'') \<and>
   list_ex (\<lambda>w. standalone latin w (norm latin (u ''ordenes de josefina''))) ORDER_NOUNS \<and>
   list_all (\<lambda>tech. \<not> standalone latin (u tech) (norm latin (u ''ordenes de josefina''))) TECHS \<and>
   detect_intent latin (u ''ordenes de josefina'') = HELP"
  by code_simp

text \<open>
  The override as the code tests it: with an order noun as a whole word, no greeting
  phrase and no name of \<^verbatim>\<open>TECHS\<close> as a substring of the normalised text, the intent
  is \<^verbatim>\<open>STATUS_COUNTS\<close>. The letters are word characters of the Unicode database.
\<close>

theorem orders_without_technician:
  assumes "list_all (isword U) LETTERS"
    and "\<not> is_greeting U text"
    and "list_ex (\<lambda>w. standalone U w (norm U text)) ORDER_NOUNS"
    and "\<not> mentions_tech (norm U text)"
  shows "detect_intent U text = STATUS_COUNTS"
proof -
  from assms(3) have "has_orders U (norm U text)"
    by (simp only: has_orders_iff[OF letters_words(1)[OF assms(1)]])
  with assms(2,4) show ?thesis
    by (simp add: detect_intent_def intent_of_def is_greeting_def)
qed

text \<open>
  A text in which the pattern of \<^verbatim>\<open>TECH_BY_PERSON\<close> is the first of the table to
  match, and the answer is \<^verbatim>\<open>STATUS_COUNTS\<close> all the same.
\<close>

theorem orders_without_technician_witness:
  "list_all (isword latin) LETTERS \<and>
   \<not> is_greeting latin (u ''cuantas ordenes tiene maria'') \<and>
   list_ex (\<lambda>w. standalone latin w (norm latin (u ''cuantas ordenes tiene maria'')))
     ORDER_NOUNS \<and>
   \<not> mentions_tech (norm latin (u ''cuantas ordenes tiene maria'')) \<and>
   first_intent latin INTENTS
     (re_sub latin FILLER [] (norm latin (u ''cuantas ordenes tiene maria''))) =
     Some TECH_BY_PERSON \<and>
   detect_intent latin (u ''cuantas ordenes tiene maria'') = STATUS_COUNTS"
proof -
  have g: "\<not> is_greeting latin (u ''cuantas ordenes tiene maria'')" by code_simp
  have h: "list_ex (\<lambda>w. standalone latin w (norm latin (u ''cuantas ordenes tiene maria'')))
     ORDER_NOUNS"
    by code_simp
  have m: "\<not> mentions_tech (norm latin (u ''cuantas ordenes tiene maria''))" by code_simp
  have p: "first_intent latin INTENTS
     (re_sub latin FILLER [] (norm latin (u ''cuantas ordenes tiene maria''))) =
     Some TECH_BY_PERSON" by code_simp
  show ?thesis
    by (rule conjI[OF letters_latin conjI[OF g conjI[OF h conjI[OF m conjI[OF p
          orders_without_technician[OF letters_latin g h m]]]]]])
qed

text \<open>
  C5. A month name of the table followed by an explicit four-digit year \<open>y\<close> (from 1,
  and for December below 9999) resolves to the first and the last day of that month of
  \<open>y\<close>. The text is any normalised text in which the name, a space and the four
  digits \<open>a b c d\<close> stand after a text \<open>pre\<close> that does not end inside a word and
  does not have the name as a whole word; the month is the first of the table to occur
  in the text as a whole word. The resolver returns the year as it is written, the
  month in two digits, and the days \<^verbatim>\<open>01\<close> and \<open>gregorian_last_day y m\<close>: the day
  before the first of the next month (January of \<open>y + 1\<close> after December), which is
  what the code computes, is the last day of the calendar. Both \<^verbatim>\<open>septiembre\<close> and
  \<^verbatim>\<open>setiembre\<close> are month 9 (\<open>months_spellings\<close>).
\<close>

theorem named_month_with_year:
  assumes U: "ascii_classes U"
    and M: "MONTHS = before @ (name, m) # after"
    and B: "list_all (\<lambda>p. \<not> standalone U (u (fst p)) t) before"
    and t: "t = pre @ u name @ [0x20] @ [0x30 + a, 0x30 + b, 0x30 + c, 0x30 + d] @ post"
    and p: "pre = [] \<or> \<not> isword U (last pre)" and ns: "\<not> standalone U (u name) pre"
    and ds: "list_all (\<lambda>k. 0 \<le> k \<and> k \<le> 9) [a, b, c, d]"
    and y: "y = 1000 * a + 100 * b + 10 * c + d" and y1: "1 \<le> y" and dec: "m < 12 \<or> y < 9999"
  shows "month_range_from_name U now t =
           Inr (Some ([0x30 + a, 0x30 + b, 0x30 + c, 0x30 + d] @ u ''-'' @ two_digits m @ u ''-01'',
                      [0x30 + a, 0x30 + b, 0x30 + c, 0x30 + d] @ u ''-'' @ two_digits m @ u ''-'' @
                        two_digits (gregorian_last_day y m)))"
proof -
  let ?ds = "[0x30 + a, 0x30 + b, 0x30 + c, 0x30 + d]"
  from U have L: "list_all (isword U) LETTERS" by (simp add: ascii_classes_def)
  note W = month_names_words[OF L, unfolded M]
  from W have w: "name \<noteq> []" "list_all (isword U) (u name)" by simp_all
  have "(name, m) \<in> set MONTHS" unfolding M by simp
  with months_in_year have m: "1 \<le> m" "m \<le> 12"
    by (auto simp: list_all_iff)
  from ds y have y2: "y \<le> 9999" by simp
  have nb: "\<not> list_ex (\<lambda>p. found U (month_pattern (fst p)) t) before"
  proof -
    have "found U (month_pattern (fst q)) t = standalone U (u (fst q)) t" if "q \<in> set before" for q
      using W that by (intro found_month_iff) (auto simp: list_all_iff)
    with B show ?thesis by (auto simp: list_all_iff list_ex_iff)
  qed
  have rs: "re_search U (month_pattern name) t = Some (isword U (0x30 + d), post, [(1, ?ds)])"
    unfolding t by (rule re_search_month_year[OF U w ds p ns])
  have g: "group (isword U (0x30 + d), post, [(1, ?ds)]) 1 = Some ?ds" by (simp add: group_def)
  have pi: "py_int U ?ds = Inr y" unfolding y by (rule py_int_digits[OF U ds])
  have i1: "isoformat \<lparr>year = y, month = m, day = 1\<rparr> = ?ds @ u ''-'' @ two_digits m @ u ''-01''"
    using m zpad_digits[OF ds] zpad_two_digits[of m] zpad_two_digits[of 1]
    by (simp add: isoformat_def y u_def two_digits_def)
  have gl: "28 \<le> gregorian_last_day y m" "gregorian_last_day y m \<le> 31"
    using days_in_month_bounds[of y m] by (simp_all add: days_in_month_gregorian)
  have i2: "isoformat \<lparr>year = y, month = m, day = days_in_month y m\<rparr> =
              ?ds @ u ''-'' @ two_digits m @ u ''-'' @ two_digits (gregorian_last_day y m)"
    using m gl zpad_digits[OF ds] zpad_two_digits[of m] zpad_two_digits[of "gregorian_last_day y m"]
    by (simp add: isoformat_def y u_def days_in_month_gregorian)
  have "month_range_from_name U now t = month_loop U now ((name, m) # after) t"
    unfolding month_range_from_name_def M using nb by (rule month_loop_skip)
  also have "\<dots> = (case month_range y m of Inl e \<Rightarrow> Inl e | Inr r \<Rightarrow> Inr (Some r))"
    using rs g pi by simp
  also have "\<dots> = Inr (Some (isoformat \<lparr>year = y, month = m, day = 1\<rparr>,
                      isoformat \<lparr>year = y, month = m, day = days_in_month y m\<rparr>))"
    using month_range_eq[OF y1 y2 m dec] by simp
  finally show ?thesis by (simp only: i1 i2)
qed


text \<open>
  \<^verbatim>\<open>agosto 2024\<close> and \<^verbatim>\<open>diciembre 2024\<close>; February of a leap year, inside a sentence;
  the second spelling of September; February of 1900, which is no leap year.
\<close>

theorem named_month_with_year_witness:
  "ascii_classes latin \<and>
   month_range_from_name latin ref_date (u ''agosto 2024'') =
     Inr (Some (u ''2024-08-01'', u ''2024-08-31'')) \<and>
   month_range_from_name latin ref_date (u ''diciembre 2024'') =
     Inr (Some (u ''2024-12-01'', u ''2024-12-31'')) \<and>
   month_range_from_name latin ref_date (u ''mttr de febrero 2024 en la planta'') =
     Inr (Some (u ''2024-02-01'', u ''2024-02-29'')) \<and>
   month_range_from_name latin ref_date (u ''setiembre 1900'') =
     Inr (Some (u ''1900-09-01'', u ''1900-09-30'')) \<and>
   month_range_from_name latin ref_date (u ''febrero 1900'') =
     Inr (Some (u ''1900-02-01'', u ''1900-02-28''))"
proof -
  have U: "ascii_classes latin" by code_simp
  have a1: "MONTHS = take 7 MONTHS @ (''agosto'', 8) # drop 8 MONTHS" by code_simp
  have a2: "list_all (\<lambda>p. \<not> standalone latin (u (fst p)) (u ''agosto 2024'')) (take 7 MONTHS)"
    by code_simp
  have a3: "u ''agosto 2024'' = [] @ u ''agosto'' @ [0x20] @ [0x30 + 2, 0x30 + 0, 0x30 + 2, 0x30 + 4] @ []"
    by code_simp
  have a4: "[] = [] \<or> \<not> isword latin (last ([]))" by code_simp
  have a5: "\<not> standalone latin (u ''agosto'') ([])" by code_simp
  have a6: "list_all (\<lambda>k. 0 \<le> k \<and> k \<le> 9) [2, 0, 2, 4::int]" by simp
  have a7: "(2024::int) = 1000 * 2 + 100 * 0 + 10 * 2 + 4" by simp
  have a8: "(1::int) \<le> 2024" by simp
  have a9: "(8::int) < 12 \<or> (2024::int) < 9999" by simp
  have af: "[0x30 + 2, 0x30 + 0, 0x30 + 2, 0x30 + 4] @ u ''-'' @ two_digits 8 @ u ''-01'' = u ''2024-08-01''"
    by code_simp
  have al: "[0x30 + 2, 0x30 + 0, 0x30 + 2, 0x30 + 4] @ u ''-'' @ two_digits 8 @ u ''-'' @
      two_digits (gregorian_last_day 2024 8) = u ''2024-08-31''"
    by code_simp
  note A = named_month_with_year[OF U a1 a2 a3 a4 a5 a6 a7 a8 a9,
      of ref_date, unfolded af al]
  have d1: "MONTHS = take 12 MONTHS @ (''diciembre'', 12) # drop 13 MONTHS" by code_simp
  have d2: "list_all (\<lambda>p. \<not> standalone latin (u (fst p)) (u ''diciembre 2024'')) (take 12 MONTHS)"
    by code_simp
  have d3: "u ''diciembre 2024'' = [] @ u ''diciembre'' @ [0x20] @ [0x30 + 2, 0x30 + 0, 0x30 + 2, 0x30 + 4] @ []"
    by code_simp
  have d4: "[] = [] \<or> \<not> isword latin (last ([]))" by code_simp
  have d5: "\<not> standalone latin (u ''diciembre'') ([])" by code_simp
  have d6: "list_all (\<lambda>k. 0 \<le> k \<and> k \<le> 9) [2, 0, 2, 4::int]" by simp
  have d7: "(2024::int) = 1000 * 2 + 100 * 0 + 10 * 2 + 4" by simp
  have d8: "(1::int) \<le> 2024" by simp
  have d9: "(12::int) < 12 \<or> (2024::int) < 9999" by simp
  have df: "[0x30 + 2, 0x30 + 0, 0x30 + 2, 0x30 + 4] @ u ''-'' @ two_digits 12 @ u ''-01'' = u ''2024-12-01''"
    by code_simp
  have dl: "[0x30 + 2, 0x30 + 0, 0x30 + 2, 0x30 + 4] @ u ''-'' @ two_digits 12 @ u ''-'' @
      two_digits (gregorian_last_day 2024 12) = u ''2024-12-31''"
    by code_simp
  note D = named_month_with_year[OF U d1 d2 d3 d4 d5 d6 d7 d8 d9,
      of ref_date, unfolded df dl]
  have f1: "MONTHS = take 1 MONTHS @ (''febrero'', 2) # drop 2 MONTHS" by code_simp
  have f2: "list_all (\<lambda>p. \<not> standalone latin (u (fst p)) (u ''mttr de febrero 2024 en la planta'')) (take 1 MONTHS)"
    by code_simp
  have f3: "u ''mttr de febrero 2024 en la planta'' = u ''mttr de '' @ u ''febrero'' @ [0x20] @ [0x30 + 2, 0x30 + 0, 0x30 + 2, 0x30 + 4] @ u '' en la planta''"
    by code_simp
  have f4: "u ''mttr de '' = [] \<or> \<not> isword latin (last (u ''mttr de ''))" by code_simp
  have f5: "\<not> standalone latin (u ''febrero'') (u ''mttr de '')" by code_simp
  have f6: "list_all (\<lambda>k. 0 \<le> k \<and> k \<le> 9) [2, 0, 2, 4::int]" by simp
  have f7: "(2024::int) = 1000 * 2 + 100 * 0 + 10 * 2 + 4" by simp
  have f8: "(1::int) \<le> 2024" by simp
  have f9: "(2::int) < 12 \<or> (2024::int) < 9999" by simp
  have ff: "[0x30 + 2, 0x30 + 0, 0x30 + 2, 0x30 + 4] @ u ''-'' @ two_digits 2 @ u ''-01'' = u ''2024-02-01''"
    by code_simp
  have fl: "[0x30 + 2, 0x30 + 0, 0x30 + 2, 0x30 + 4] @ u ''-'' @ two_digits 2 @ u ''-'' @
      two_digits (gregorian_last_day 2024 2) = u ''2024-02-29''"
    by code_simp
  note F = named_month_with_year[OF U f1 f2 f3 f4 f5 f6 f7 f8 f9,
      of ref_date, unfolded ff fl]
  have s1: "MONTHS = take 9 MONTHS @ (''setiembre'', 9) # drop 10 MONTHS" by code_simp
  have s2: "list_all (\<lambda>p. \<not> standalone latin (u (fst p)) (u ''setiembre 1900'')) (take 9 MONTHS)"
    by code_simp
  have s3: "u ''setiembre 1900'' = [] @ u ''setiembre'' @ [0x20] @ [0x30 + 1, 0x30 + 9, 0x30 + 0, 0x30 + 0] @ []"
    by code_simp
  have s4: "[] = [] \<or> \<not> isword latin (last ([]))" by code_simp
  have s5: "\<not> standalone latin (u ''setiembre'') ([])" by code_simp
  have s6: "list_all (\<lambda>k. 0 \<le> k \<and> k \<le> 9) [1, 9, 0, 0::int]" by simp
  have s7: "(1900::int) = 1000 * 1 + 100 * 9 + 10 * 0 + 0" by simp
  have s8: "(1::int) \<le> 1900" by simp
  have s9: "(9::int) < 12 \<or> (1900::int) < 9999" by simp
  have sf: "[0x30 + 1, 0x30 + 9, 0x30 + 0, 0x30 + 0] @ u ''-'' @ two_digits 9 @ u ''-01'' = u ''1900-09-01''"
    by code_simp
  have sl: "[0x30 + 1, 0x30 + 9, 0x30 + 0, 0x30 + 0] @ u ''-'' @ two_digits 9 @ u ''-'' @
      two_digits (gregorian_last_day 1900 9) = u ''1900-09-30''"
    by code_simp
  note S = named_month_with_year[OF U s1 s2 s3 s4 s5 s6 s7 s8 s9,
      of ref_date, unfolded sf sl]
  have g1: "MONTHS = take 1 MONTHS @ (''febrero'', 2) # drop 2 MONTHS" by code_simp
  have g2: "list_all (\<lambda>p. \<not> standalone latin (u (fst p)) (u ''febrero 1900'')) (take 1 MONTHS)"
    by code_simp
  have g3: "u ''febrero 1900'' = [] @ u ''febrero'' @ [0x20] @ [0x30 + 1, 0x30 + 9, 0x30 + 0, 0x30 + 0] @ []"
    by code_simp
  have g4: "[] = [] \<or> \<not> isword latin (last ([]))" by code_simp
  have g5: "\<not> standalone latin (u ''febrero'') ([])" by code_simp
  have g6: "list_all (\<lambda>k. 0 \<le> k \<and> k \<le> 9) [1, 9, 0, 0::int]" by simp
  have g7: "(1900::int) = 1000 * 1 + 100 * 9 + 10 * 0 + 0" by simp
  have g8: "(1::int) \<le> 1900" by simp
  have g9: "(2::int) < 12 \<or> (1900::int) < 9999" by simp
  have gf: "[0x30 + 1, 0x30 + 9, 0x30 + 0, 0x30 + 0] @ u ''-'' @ two_digits 2 @ u ''-01'' = u ''1900-02-01''"
    by code_simp
  have gl: "[0x30 + 1, 0x30 + 9, 0x30 + 0, 0x30 + 0] @ u ''-'' @ two_digits 2 @ u ''-'' @
      two_digits (gregorian_last_day 1900 2) = u ''1900-02-28''"
    by code_simp
  note G = named_month_with_year[OF U g1 g2 g3 g4 g5 g6 g7 g8 g9,
      of ref_date, unfolded gf gl]
  show ?thesis by (rule conjI[OF U conjI[OF A conjI[OF D conjI[OF F conjI[OF S G]]]]])
qed

text \<open>
  C6. \<^verbatim>\<open>extract_slots\<close> sets the technician only when the normalised text has an
  order noun or \<^verbatim>\<open>abiert\<close> or \<^verbatim>\<open>cerrad\<close> in it; it is then the first name of
  \<^verbatim>\<open>TECHS\<close>, in the order of the list, found as a whole word, capitalised; so it is
  always unset or a name of the roster. The letters are word characters of the
  Unicode database.
\<close>

theorem technician_first_roster_match:
  assumes "extract_slots U now text ks ka = Inr s" and "list_all (isword U) LETTERS"
  shows "technician s =
           (if list_ex (\<lambda>w. standalone U w (norm U text)) ORDER_NOUNS \<or>
               str_in (u ''abiert'') (norm U text) \<or> str_in (u ''cerrad'') (norm U text)
            then map_option (\<lambda>tech. capitalize (u tech))
                   (find (\<lambda>tech. standalone U (u tech) (norm U text)) TECHS)
            else None) \<and>
         technician s \<in> set (None # map Some ROSTER)"
proof -
  have t: "technician s =
           (if list_ex (\<lambda>w. standalone U w (norm U text)) ORDER_NOUNS \<or>
               str_in (u ''abiert'') (norm U text) \<or> str_in (u ''cerrad'') (norm U text)
            then map_option (\<lambda>tech. capitalize (u tech))
                   (find (\<lambda>tech. standalone U (u tech) (norm U text)) TECHS)
            else None)"
    using extract_slots_fields(3)[OF assms(1)]
    by (simp only: first_tech_find has_orders_iff[OF letters_words(1)[OF assms(2)]]
        find_roster_word[OF assms(2)])
  moreover have "technician s \<in> set (None # map Some ROSTER)"
    unfolding t using find_in_roster[of "\<lambda>tech. standalone U (u tech) (norm U text)"]
    by (simp split: if_splits)
  ultimately show ?thesis by (rule conjI)
qed

text \<open>\<^verbatim>\<open>extract_slots("cu\<acute>antas \<acute>ordenes tiene sebastian")\<close> has the technician \<^verbatim>\<open>Sebastian\<close>:\<close>

theorem technician_first_roster_match_witness:
  "extract_slots latin ref_date sebastian_question [] [] =
     Inr \<lparr>site = None, area = None, type = None, status = None,
          date_from = None, date_to = None, technician = Some (u ''Sebastian'')\<rparr> \<and>
   list_all (isword latin) LETTERS \<and>
   list_ex (\<lambda>w. standalone latin w (norm latin sebastian_question)) ORDER_NOUNS \<and>
   technician \<lparr>site = None, area = None, type = None, status = None,
          date_from = None, date_to = None, technician = Some (u ''Sebastian'')\<rparr> =
     map_option (\<lambda>tech. capitalize (u tech))
       (find (\<lambda>tech. standalone latin (u tech) (norm latin sebastian_question)) TECHS)"
proof -
  have e: "extract_slots latin ref_date sebastian_question [] [] =
     Inr \<lparr>site = None, area = None, type = None, status = None,
          date_from = None, date_to = None, technician = Some (u ''Sebastian'')\<rparr>"
    by code_simp
  have h: "list_ex (\<lambda>w. standalone latin w (norm latin sebastian_question)) ORDER_NOUNS"
    by code_simp
  have g: "list_ex (\<lambda>w. standalone latin w (norm latin sebastian_question)) ORDER_NOUNS \<or>
           str_in (u ''abiert'') (norm latin sebastian_question) \<or>
           str_in (u ''cerrad'') (norm latin sebastian_question)"
    by (rule disjI1[OF h])
  note th = conjunct1[OF technician_first_roster_match[OF e letters_latin], unfolded if_P[OF g]]
  show ?thesis by (rule conjI[OF e conjI[OF letters_latin conjI[OF h th]]])
qed

text \<open>
  C7. The status is at most one of \<^verbatim>\<open>Abierta\<close>, \<^verbatim>\<open>Cerrada\<close>, \<^verbatim>\<open>En Progreso\<close>, the first
  that applies in the order \<^verbatim>\<open>abiert\<close>, \<^verbatim>\<open>cerrad\<close>, \<^verbatim>\<open>progreso\<close>: \<^verbatim>\<open>abiert\<close> wins over
  the other two.
\<close>

theorem status_first_keyword_wins:
  assumes "extract_slots U now text ks ka = Inr s"
  shows "status s =
           (if str_in (u ''abiert'') (norm U text) then Some (u ''Abierta'')
            else if str_in (u ''cerrad'') (norm U text) then Some (u ''Cerrada'')
            else if str_in (u ''progreso'') (norm U text) then Some (u ''En Progreso'')
            else None)"
  using assms by (rule extract_slots_fields(2))

text \<open>A text with the three keywords, the last of them \<^verbatim>\<open>abiert\<close>:\<close>

theorem status_first_keyword_wins_witness:
  "extract_slots latin ref_date (u ''en progreso, cerradas o abiertas'') [] [] =
     Inr \<lparr>site = None, area = None, type = None, status = Some (u ''Abierta''),
          date_from = None, date_to = None, technician = None\<rparr> \<and>
   str_in (u ''abiert'') (norm latin (u ''en progreso, cerradas o abiertas'')) \<and>
   str_in (u ''cerrad'') (norm latin (u ''en progreso, cerradas o abiertas'')) \<and>
   str_in (u ''progreso'') (norm latin (u ''en progreso, cerradas o abiertas'')) \<and>
   status \<lparr>site = None, area = None, type = None, status = Some (u ''Abierta''),
          date_from = None, date_to = None, technician = None\<rparr> = Some (u ''Abierta'')"
proof -
  have e: "extract_slots latin ref_date (u ''en progreso, cerradas o abiertas'') [] [] =
     Inr \<lparr>site = None, area = None, type = None, status = Some (u ''Abierta''),
          date_from = None, date_to = None, technician = None\<rparr>"
    by code_simp
  have a: "str_in (u ''abiert'') (norm latin (u ''en progreso, cerradas o abiertas''))"
    by code_simp
  have c: "str_in (u ''cerrad'') (norm latin (u ''en progreso, cerradas o abiertas''))"
    by code_simp
  have p: "str_in (u ''progreso'') (norm latin (u ''en progreso, cerradas o abiertas''))"
    by code_simp
  note th = status_first_keyword_wins[OF e, unfolded if_P[OF a]]
  show ?thesis by (rule conjI[OF e conjI[OF a conjI[OF c conjI[OF p th]]]])
qed

text \<open>
  C9. There is an input for which \<^verbatim>\<open>detect_intent\<close> answers \<^verbatim>\<open>TECH_BY_PERSON\<close> and
  \<^verbatim>\<open>extract_slots\<close> leaves the technician unset: in
  \<^verbatim>\<open>cuantas ordenes tiene josefina\<close> the name \<^verbatim>\<open>jose\<close> is a substring, which is what
  \<^verbatim>\<open>detect_intent\<close> tests, and not a word, which is what \<^verbatim>\<open>extract_slots\<close> tests.
\<close>

theorem josefina_intent_without_technician:
  "detect_intent latin (u ''cuantas ordenes tiene josefina'') = TECH_BY_PERSON \<and>
   extract_slots latin now (u ''cuantas ordenes tiene josefina'') ks ka =
     Inr \<lparr>site = None, area = None, type = None, status = None,
          date_from = None, date_to = None, technician = None\<rparr> \<and>
   str_in (u ''jose'') (norm latin (u ''cuantas ordenes tiene josefina'')) \<and>
   \<not> standalone latin (u ''jose'') (norm latin (u ''cuantas ordenes tiene josefina''))"
proof -
  have a: "detect_intent latin (u ''cuantas ordenes tiene josefina'') = TECH_BY_PERSON"
    by code_simp
  have b: "extract_slots latin now (u ''cuantas ordenes tiene josefina'') ks ka =
     Inr \<lparr>site = None, area = None, type = None, status = None,
          date_from = None, date_to = None, technician = None\<rparr>"
    by code_simp
  have c: "str_in (u ''jose'') (norm latin (u ''cuantas ordenes tiene josefina''))"
    by code_simp
  have d: "\<not> standalone latin (u ''jose'') (norm latin (u ''cuantas ordenes tiene josefina''))"
    by code_simp
  show ?thesis by (rule conjI[OF a conjI[OF b conjI[OF c d]]])
qed

text \<open>
  C10. The type is \<^verbatim>\<open>CM\<close> when the normalised text has the word \<^verbatim>\<open>cm\<close>, with or
  without the word \<^verbatim>\<open>pm\<close> (the test for \<^verbatim>\<open>cm\<close> runs last and overwrites);
  \<^verbatim>\<open>PM\<close> when it has \<^verbatim>\<open>pm\<close> and not \<^verbatim>\<open>cm\<close>; unset when it has neither. The letters
  are word characters of the Unicode database.
\<close>

theorem type_cm_overwrites_pm:
  assumes "extract_slots U now text ks ka = Inr s" and "list_all (isword U) LETTERS"
  shows "type s =
           (if standalone U (u ''cm'') (norm U text) then Some (u ''CM'')
            else if standalone U (u ''pm'') (norm U text) then Some (u ''PM'')
            else None)"
proof -
  note w = letters_words(3,4)[OF assms(2)]
  have "found U (phrase ''pm'') t = standalone U (u ''pm'') t"
    and "found U (phrase ''cm'') t = standalone U (u ''cm'') t" for t
    by (rule found_phrase_iff[OF _ w(1)], simp) (rule found_phrase_iff[OF _ w(2)], simp)
  with extract_slots_fields(1)[OF assms(1)] show ?thesis by (simp only:)
qed

text \<open>A text with both words:\<close>

theorem type_cm_overwrites_pm_witness:
  "extract_slots latin ref_date (u ''pm y cm'') [] [] =
     Inr \<lparr>site = None, area = None, type = Some (u ''CM''), status = None,
          date_from = None, date_to = None, technician = None\<rparr> \<and>
   list_all (isword latin) LETTERS \<and>
   standalone latin (u ''pm'') (norm latin (u ''pm y cm'')) \<and>
   standalone latin (u ''cm'') (norm latin (u ''pm y cm'')) \<and>
   type \<lparr>site = None, area = None, type = Some (u ''CM''), status = None,
          date_from = None, date_to = None, technician = None\<rparr> = Some (u ''CM'')"
proof -
  have e: "extract_slots latin ref_date (u ''pm y cm'') [] [] =
     Inr \<lparr>site = None, area = None, type = Some (u ''CM''), status = None,
          date_from = None, date_to = None, technician = None\<rparr>"
    by code_simp
  have p: "standalone latin (u ''pm'') (norm latin (u ''pm y cm''))" by code_simp
  have c: "standalone latin (u ''cm'') (norm latin (u ''pm y cm''))" by code_simp
  note th = type_cm_overwrites_pm[OF e letters_latin, unfolded if_P[OF c]]
  show ?thesis by (rule conjI[OF e conjI[OF letters_latin conjI[OF p conjI[OF c th]]]])
qed

text \<open>
  C4. \<^verbatim>\<open>normalize(normalize(x)) == normalize(x)\<close> for every \<open>x\<close>, the steps being, in
  this order, lower-casing, dropping the combining marks, collapsing white space,
  trimming. \<^verbatim>\<open>_norm\<close> does call \<^verbatim>\<open>strip\<close>, and calls it before it drops the marks:
  a space that a combining mark separates from the end, or from the start, of the text
  is left in the result, and is trimmed when the result is normalised again.
\<close>

theorem normalize_not_idempotent:
  "norm latin (u ''a '' @ [0x301]) = u ''a '' \<and>
   norm latin (u ''a '') = u ''a'' \<and>
   norm latin (norm latin (u ''a '' @ [0x301])) \<noteq> norm latin (u ''a '' @ [0x301]) \<and>
   norm latin ([0x301] @ u '' a'') = u '' a'' \<and>
   norm latin (norm latin ([0x301] @ u '' a'')) \<noteq> norm latin ([0x301] @ u '' a'')"
  by code_simp

text \<open>
  C8. Two inputs that become equal when their combining marks are dropped (after
  NFD) have the same intent: for every Unicode database with the laws \<open>mark_laws\<close>,
  and all texts. The normalised texts may differ by a space at an edge, which the
  intent does not see.
\<close>

theorem accents_do_not_change_intent:
  assumes "mark_laws U" and "drop_marks U x = drop_marks U y"
  shows "detect_intent U x = detect_intent U y"
proof -
  from assms(1) have sp: "isspace U 0x20" "\<not> isword U 0x20" by (simp_all add: mark_laws_def)
  have "detect_intent U x = intent_of U (trim (isspace U) (norm U x))"
    unfolding detect_intent_def using sp by (rule intent_of_trim_norm)
  also have "\<dots> = intent_of U (trim (isspace U) (norm U y))"
    by (simp only: trim_norm_eq[OF assms])
  also have "\<dots> = detect_intent U y"
    unfolding detect_intent_def using sp by (rule intent_of_trim_norm[symmetric])
  finally show ?thesis .
qed


text \<open>
  The tables \<open>latin\<close> have the laws. \<^verbatim>\<open>detect_intent("d\<acute>ias") == detect_intent("dias")\<close>,
  with the precomposed U+00ED and with the mark U+0301 after the \<^verbatim>\<open>i\<close>; and a text
  with U+1F4C8 that ends with a space and a mark, whose normalised text keeps the
  space.
\<close>

theorem accents_do_not_change_intent_witness:
  "mark_laws latin \<and>
   drop_marks latin (u ''d'' @ [0xED] @ u ''as'') = drop_marks latin (u ''dias'') \<and>
   detect_intent latin (u ''d'' @ [0xED] @ u ''as'') = detect_intent latin (u ''dias'') \<and>
   drop_marks latin (u ''di'' @ [0x301] @ u ''as'') = drop_marks latin (u ''dias'') \<and>
   detect_intent latin (u ''di'' @ [0x301] @ u ''as'') = detect_intent latin (u ''dias'') \<and>
   drop_marks latin ([0x1F4C8] @ u '' costos '' @ [0x301]) =
     drop_marks latin ([0x1F4C8] @ u '' costos '') \<and>
   norm latin ([0x1F4C8] @ u '' costos '' @ [0x301]) =
     norm latin ([0x1F4C8] @ u '' costos '') @ [0x20] \<and>
   detect_intent latin ([0x1F4C8] @ u '' costos '') = COSTS \<and>
   detect_intent latin ([0x1F4C8] @ u '' costos '' @ [0x301]) =
     detect_intent latin ([0x1F4C8] @ u '' costos '')"
proof -
  have d: "drop_marks latin (u ''d'' @ [0xED] @ u ''as'') = drop_marks latin (u ''dias'')"
    by code_simp
  have e: "drop_marks latin (u ''di'' @ [0x301] @ u ''as'') = drop_marks latin (u ''dias'')"
    by code_simp
  have f: "drop_marks latin ([0x1F4C8] @ u '' costos '' @ [0x301]) =
     drop_marks latin ([0x1F4C8] @ u '' costos '')"
    by code_simp
  have n: "norm latin ([0x1F4C8] @ u '' costos '' @ [0x301]) =
     norm latin ([0x1F4C8] @ u '' costos '') @ [0x20]"
    by code_simp
  have c: "detect_intent latin ([0x1F4C8] @ u '' costos '') = COSTS" by code_simp
  note t1 = accents_do_not_change_intent[OF mark_laws_latin d]
  note t2 = accents_do_not_change_intent[OF mark_laws_latin e]
  note t3 = accents_do_not_change_intent[OF mark_laws_latin f]
  show ?thesis
    by (rule conjI[OF mark_laws_latin conjI[OF d conjI[OF t1 conjI[OF e conjI[OF t2
          conjI[OF f conjI[OF n conjI[OF c t3]]]]]]]])
qed

end
